theory Spec2Isabelle
  imports Main
begin

section \<open>Data model (models/data.py)\<close>

text \<open>
  Strings are lists of characters. A \<^typ>\<open>char\<close> stands for one code point below 256;
  the character classes of the regular expressions used by the source are given for
  that range in the section on dialogue segmentation.
\<close>

datatype Speaker = HOST_A | HOST_B

text \<open>The value of the enumeration member, which is also its name in a script.\<close>

fun speaker_value :: "Speaker \<Rightarrow> string" where
  "speaker_value HOST_A = ''HOST_A''"
| "speaker_value HOST_B = ''HOST_B''"

record SpeakerSegment =
  speaker :: Speaker
  s_text :: string
  s_index :: int
  cues :: "string list"

text \<open>
  The metadata of a chunk is a dictionary; insertion order is kept, so it is an
  association list, updated in place when the key is present and extended at the end
  otherwise.
\<close>

datatype meta_value = Meta_int int | Meta_str string

type_synonym metadata = "(string \<times> meta_value) list"

fun dict_set :: "metadata \<Rightarrow> string \<Rightarrow> meta_value \<Rightarrow> metadata" where
  "dict_set [] k v = [(k, v)]"
| "dict_set ((k', v') # m) k v = (if k' = k then (k, v) # m else (k', v') # dict_set m k v)"

record Chunk =
  c_text :: string
  c_index :: int
  c_metadata :: metadata


section \<open>Pipeline controller (agents/graph.py)\<close>

text \<open>
  The graph state is a dictionary with eight fixed keys; \<open>run_pipeline\<close> creates it with
  every key present, so each \<open>state.get(key, default)\<close> of the source reads the stored
  value and never the default.
\<close>

record GraphState =
  title :: string
  content :: string
  collection_name :: string
  raw_script :: string
  accuracy_checked_script :: string
  enhanced_script :: string
  final_script :: string
  errors :: "string list"

text \<open>
  A node returns a dictionary holding only the keys it changes; the graph runtime
  overwrites those keys in the state and keeps the others.
\<close>

datatype update =
    Raw_script string
  | Accuracy_checked_script string
  | Enhanced_script string
  | Final_script string
  | Errors "string list"

fun apply_update :: "GraphState \<Rightarrow> update \<Rightarrow> GraphState" where
  "apply_update st (Raw_script s) = st\<lparr>raw_script := s\<rparr>"
| "apply_update st (Accuracy_checked_script s) = st\<lparr>accuracy_checked_script := s\<rparr>"
| "apply_update st (Enhanced_script s) = st\<lparr>enhanced_script := s\<rparr>"
| "apply_update st (Final_script s) = st\<lparr>final_script := s\<rparr>"
| "apply_update st (Errors es) = st\<lparr>errors := es\<rparr>"

definition merge_updates :: "GraphState \<Rightarrow> update list \<Rightarrow> GraphState" where
  "merge_updates st us = foldl apply_update st us"

text \<open>
  The four agents call a language model; they are parameters of the model. Each either
  returns a script (\<open>Inr\<close>) or raises an exception, represented by its message (\<open>Inl\<close>).
\<close>

type_synonym generate_fn = "string \<Rightarrow> string \<Rightarrow> string \<Rightarrow> string + string"
type_synonym check_fn = "string \<Rightarrow> string \<Rightarrow> string + string"
type_synonym rewrite_fn = "string \<Rightarrow> string + string"

definition node_generate_script :: "generate_fn \<Rightarrow> GraphState \<Rightarrow> update list" where
  "node_generate_script generate_script st =
     (case generate_script (title st) (content st) (collection_name st) of
        Inr script \<Rightarrow> [Raw_script script]
      | Inl e \<Rightarrow> [Raw_script [], Errors (errors st @ [''Script generation: '' @ e])])"

definition node_accuracy_check :: "check_fn \<Rightarrow> GraphState \<Rightarrow> update list" where
  "node_accuracy_check check_accuracy st =
     (let script = raw_script st in
      if script = [] then [Errors (errors st @ [''No script to fact-check''])]
      else (case check_accuracy script (collection_name st) of
              Inr checked \<Rightarrow> [Accuracy_checked_script checked]
            | Inl e \<Rightarrow> [Accuracy_checked_script script,
                        Errors (errors st @ [''Accuracy check: '' @ e])]))"

definition node_storytelling :: "rewrite_fn \<Rightarrow> GraphState \<Rightarrow> update list" where
  "node_storytelling enhance_storytelling st =
     (let script = accuracy_checked_script st in
      if script = [] then [Errors (errors st @ [''No script to enhance''])]
      else (case enhance_storytelling script of
              Inr enhanced \<Rightarrow> [Enhanced_script enhanced]
            | Inl e \<Rightarrow> [Enhanced_script script,
                        Errors (errors st @ [''Storytelling: '' @ e])]))"

definition node_engagement :: "rewrite_fn \<Rightarrow> GraphState \<Rightarrow> update list" where
  "node_engagement optimize_engagement st =
     (let script = enhanced_script st in
      if script = [] then [Errors (errors st @ [''No script to optimize''])]
      else (case optimize_engagement script of
              Inr final \<Rightarrow> [Final_script final]
            | Inl e \<Rightarrow> [Final_script script,
                        Errors (errors st @ [''Engagement: '' @ e])]))"

datatype route = Continue | Abort

definition should_continue :: "GraphState \<Rightarrow> route" where
  "should_continue st =
     (if raw_script st = [] \<and> errors st \<noteq> [] then Abort else Continue)"

text \<open>
  The graph has two ways to its end: the \<open>abort\<close> edge after the first node, and the
  edge after the last node. The model returns which one the run took with the final
  state.
\<close>

datatype run_status = Completed | Aborted

definition initial_state :: "string \<Rightarrow> string \<Rightarrow> string \<Rightarrow> GraphState" where
  "initial_state t c coll =
     \<lparr>title = t, content = c, collection_name = coll, raw_script = [],
      accuracy_checked_script = [], enhanced_script = [], final_script = [],
      errors = []\<rparr>"

text \<open>The linear edges of the graph: the three later nodes, one after the other.\<close>

definition later_stages ::
  "check_fn \<Rightarrow> rewrite_fn \<Rightarrow> rewrite_fn \<Rightarrow> GraphState \<Rightarrow> GraphState" where
  "later_stages check_accuracy enhance_storytelling optimize_engagement s1 =
     (let s2 = merge_updates s1 (node_accuracy_check check_accuracy s1);
          s3 = merge_updates s2 (node_storytelling enhance_storytelling s2)
      in merge_updates s3 (node_engagement optimize_engagement s3))"

definition run_pipeline ::
  "generate_fn \<Rightarrow> check_fn \<Rightarrow> rewrite_fn \<Rightarrow> rewrite_fn \<Rightarrow>
   string \<Rightarrow> string \<Rightarrow> string \<Rightarrow> run_status \<times> GraphState" where
  "run_pipeline generate_script check_accuracy enhance_storytelling optimize_engagement
     t c coll =
     (let s0 = initial_state t c coll;
          s1 = merge_updates s0 (node_generate_script generate_script s0)
      in case should_continue s1 of
           Abort \<Rightarrow> (Aborted, s1)
         | Continue \<Rightarrow>
             (Completed,
              later_stages check_accuracy enhance_storytelling optimize_engagement s1))"

text \<open>
  The specification's reading of a run, for comparison. A later stage succeeds when it
  is given a script and its agent returns one. Each later stage is given what the
  stage before it hands on: \<open>carried\<close> is the stage's own output when it succeeds, and
  what it was given when it fails. The final script is the output of the last stage
  that succeeded, the first stage being the generator.
\<close>

definition stage_ok :: "string \<Rightarrow> string + string \<Rightarrow> bool" where
  "stage_ok input outcome = (input \<noteq> [] \<and> \<not> isl outcome)"

text \<open>
  What a later stage adds to the error list: nothing when it succeeds, and one message
  when it is given no script or when its agent raises.
\<close>

definition stage_errors :: "string \<Rightarrow> string \<Rightarrow> string \<Rightarrow> string + string \<Rightarrow> string list" where
  "stage_errors no_script prefix given outcome =
     (if given = [] then [no_script]
      else case outcome of Inl e \<Rightarrow> [prefix @ e] | Inr script \<Rightarrow> [])"

definition carried :: "string \<Rightarrow> (string \<Rightarrow> string + string) \<Rightarrow> string" where
  "carried given agent = (if stage_ok given (agent given) then projr (agent given) else given)"

definition last_successful_output ::
  "generate_fn \<Rightarrow> check_fn \<Rightarrow> rewrite_fn \<Rightarrow> rewrite_fn \<Rightarrow> string \<Rightarrow> string \<Rightarrow> string \<Rightarrow>
   string" where
  "last_successful_output generate_script check_accuracy enhance_storytelling
     optimize_engagement t c coll =
     (let generated = projr (generate_script t c coll);
          checked = carried generated (\<lambda>script. check_accuracy script coll);
          enhanced = carried checked enhance_storytelling
      in if stage_ok enhanced (optimize_engagement enhanced)
           then projr (optimize_engagement enhanced)
         else if stage_ok checked (enhance_storytelling checked)
           then projr (enhance_storytelling checked)
         else if stage_ok generated (check_accuracy generated coll)
           then projr (check_accuracy generated coll)
         else generated)"

section \<open>Timeline sequencer (audio/assembler.py)\<close>

text \<open>
  An audio segment of the audio library is opaque; the podcast is built from segments by
  concatenation only. It is modelled as the list of its pieces: a clip handed in by the
  caller, or a silence of a given duration in milliseconds.
\<close>

datatype 'a piece = Clip 'a | Silent int

type_synonym 'a audio = "'a piece list"

text \<open>
  \<open>pause_ms = pause_ms or settings.pause_between_speakers_ms\<close>: an absent argument and the
  argument 0 both give the configured value.
\<close>

definition pause_or_default :: "int option \<Rightarrow> int \<Rightarrow> int" where
  "pause_or_default pause_ms configured =
     (case pause_ms of None \<Rightarrow> configured | Some p \<Rightarrow> if p = 0 then configured else p)"

text \<open>
  The loop over \<open>zip(processed_segments, speaker_segments)\<close>; its state is the podcast
  built so far and \<open>prev_speaker\<close>.
\<close>

fun assemble_loop ::
  "int \<Rightarrow> Speaker option \<Rightarrow> 'a audio \<Rightarrow> ('a \<times> SpeakerSegment) list \<Rightarrow> 'a audio" where
  "assemble_loop pause_ms prev_speaker podcast [] = podcast"
| "assemble_loop pause_ms prev_speaker podcast ((audio, meta) # rest) =
     (let podcast1 = (if prev_speaker \<noteq> None \<and> Some (speaker meta) \<noteq> prev_speaker
                      then podcast @ [Silent pause_ms] else podcast);
          podcast2 = (if ''pause'' \<in> set (cues meta)
                      then podcast1 @ [Silent 800] else podcast1)
      in assemble_loop pause_ms (Some (speaker meta)) (podcast2 @ [Clip audio]) rest)"

text \<open>
  \<open>assemble_podcast\<close>. The intro and the outro are given as loaded by
  \<open>_load_optional_audio\<close>: \<open>None\<close> stands for a file that is not configured, missing,
  unreadable or empty (all skipped by \<open>if intro:\<close>). The configured pause is a parameter.
  The result is the podcast that the source then exports; the function has no
  \<open>raise\<close> of its own, so the model always returns on the right of the sum, whose left
  would be an exception raised to the caller.
\<close>

definition assemble_podcast ::
  "int \<Rightarrow> 'a option \<Rightarrow> 'a option \<Rightarrow> 'a list \<Rightarrow> SpeakerSegment list \<Rightarrow> int option \<Rightarrow>
   string + 'a audio" where
  "assemble_podcast configured_pause intro outro processed_segments speaker_segments pause_arg =
     (let pause_ms = pause_or_default pause_arg configured_pause;
          podcast0 = (case intro of None \<Rightarrow> [] | Some a \<Rightarrow> [Clip a, Silent 500]);
          podcast1 = assemble_loop pause_ms None podcast0
                       (zip processed_segments speaker_segments);
          podcast2 = (case outro of None \<Rightarrow> podcast1
                      | Some a \<Rightarrow> podcast1 @ [Silent 500, Clip a])
      in Inr podcast2)"






section \<open>String operations of the host language\<close>

text \<open>
  \<open>str.isspace\<close>, which is also the class \<open>\s\<close> of the regular expressions, on code
  points below 256: tab to carriage return, the four separators 28 to 31, space, next
  line (133) and no-break space (160).
\<close>

definition is_space :: "char \<Rightarrow> bool" where
  "is_space c = ((of_char c :: nat) \<in> {9, 10, 11, 12, 13, 28, 29, 30, 31, 32, 133, 160})"

text \<open>
  The class \<open>\w\<close> on code points below 256: the alphanumeric characters and the
  underscore.
\<close>

definition is_word :: "char \<Rightarrow> bool" where
  "is_word c =
     (let n = (of_char c :: nat) in
        (48 \<le> n \<and> n \<le> 57) \<or> (65 \<le> n \<and> n \<le> 90) \<or> n = 95 \<or> (97 \<le> n \<and> n \<le> 122)
      \<or> n \<in> {170, 178, 179, 181, 185, 186, 188, 189, 190}
      \<or> (192 \<le> n \<and> n \<le> 214) \<or> (216 \<le> n \<and> n \<le> 246) \<or> (248 \<le> n \<and> n \<le> 255))"

text \<open>\<open>s.strip()\<close>, \<open>s.lstrip("*")\<close>\<close>

definition strip :: "string \<Rightarrow> string" where
  "strip s = rev (dropWhile is_space (rev (dropWhile is_space s)))"

definition lstrip_star :: "string \<Rightarrow> string" where
  "lstrip_star s = dropWhile (\<lambda>c. c = CHR ''*'') s"

text \<open>A string that is not empty and has no whitespace at either end.\<close>

definition trimmed :: "string \<Rightarrow> bool" where
  "trimmed s = (s \<noteq> [] \<and> \<not> is_space (hd s) \<and> \<not> is_space (last s))"

text \<open>A string in which no two whitespace characters are next to each other.\<close>

fun spaced :: "string \<Rightarrow> bool" where
  "spaced [] = True"
| "spaced [c] = True"
| "spaced (c # d # cs) = (\<not> (is_space c \<and> is_space d) \<and> spaced (d # cs))"

text \<open>
  Splitting functions return the pieces from left to right; \<open>cons_head\<close> puts a
  character in front of the first piece.
\<close>

fun cons_head :: "char \<Rightarrow> string list \<Rightarrow> string list" where
  "cons_head c [] = [[c]]"
| "cons_head c (p # ps) = (c # p) # ps"

text \<open>\<open>s.split("\n\n")\<close>: cut at each blank-line separator, from left to right.\<close>

fun split_blank_lines :: "string \<Rightarrow> string list" where
  "split_blank_lines [] = [[]]"
| "split_blank_lines [c] = [[c]]"
| "split_blank_lines (c # d # cs) =
     (if c = CHR 0x0A \<and> d = CHR 0x0A then [] # split_blank_lines cs
      else cons_head c (split_blank_lines (d # cs)))"

text \<open>\<open>s.split()\<close>: the maximal runs of characters that are not whitespace.\<close>

fun split_ws_from :: "string \<Rightarrow> string \<Rightarrow> string list" where
  "split_ws_from w [] = (if w = [] then [] else [w])"
| "split_ws_from w (c # cs) =
     (if is_space c then (if w = [] then split_ws_from [] cs else w # split_ws_from [] cs)
      else split_ws_from (w @ [c]) cs)"

definition split_ws :: "string \<Rightarrow> string list" where
  "split_ws s = split_ws_from [] s"

text \<open>\<open>sep.join(parts)\<close>\<close>

fun join :: "string \<Rightarrow> string list \<Rightarrow> string" where
  "join sep [] = []"
| "join sep [p] = p"
| "join sep (p # q # ps) = p @ sep @ join sep (q # ps)"

text \<open>
  \<open>re.split(r"(?<=[.!?])\s+", text)\<close>: a separator is a maximal run of whitespace that
  follows a full stop, an exclamation mark or a question mark. The scan remembers
  whether the previous character was such a mark, or whether it is inside a separator.
\<close>

datatype scan = Plain | After_mark | In_gap

definition is_mark :: "char \<Rightarrow> bool" where
  "is_mark c = (c = CHR ''.'' \<or> c = CHR ''!'' \<or> c = CHR ''?'')"

fun split_sentences_from :: "scan \<Rightarrow> string \<Rightarrow> string list" where
  "split_sentences_from st [] = [[]]"
| "split_sentences_from st (c # cs) =
     (if is_space c \<and> st = After_mark then [] # split_sentences_from In_gap cs
      else if is_space c \<and> st = In_gap then split_sentences_from In_gap cs
      else cons_head c (split_sentences_from (if is_mark c then After_mark else Plain) cs))"

definition split_sentences :: "string \<Rightarrow> string list" where
  "split_sentences s = split_sentences_from Plain s"

text \<open>
  A string without a sentence boundary inside: no full stop, exclamation mark or question
  mark is followed by whitespace.
\<close>

fun boundary_free :: "string \<Rightarrow> bool" where
  "boundary_free [] = True"
| "boundary_free [c] = True"
| "boundary_free (c # d # cs) = (\<not> (is_mark c \<and> is_space d) \<and> boundary_free (d # cs))"


section \<open>Chunking engine (ingestion/chunker.py)\<close>

text \<open>
  Two computations are parameters of the model: \<open>count_tokens\<close>, which calls a
  tokenizer library, and the floating-point expression \<open>int(overlap_tokens / 1.3)\<close>,
  written \<open>approx_words\<close>.
\<close>

type_synonym token_counter = "string \<Rightarrow> nat"
type_synonym word_estimate = "int \<Rightarrow> int"

definition split_paragraphs :: "string \<Rightarrow> string list" where
  "split_paragraphs t = map strip (filter (\<lambda>p. strip p \<noteq> []) (split_blank_lines t))"

text \<open>
  \<open>_get_overlap_text\<close>. The slice \<open>words[-n:]\<close> is the last \<open>n\<close> words for a positive
  \<open>n\<close> below the number of words, every word for \<open>n = 0\<close>, and the words from position
  \<open>-n\<close> on for a negative \<open>n\<close>.
\<close>

definition get_overlap_text :: "word_estimate \<Rightarrow> string \<Rightarrow> int \<Rightarrow> string" where
  "get_overlap_text approx_words t overlap_tokens =
     (let words = split_ws t; n = approx_words overlap_tokens in
      if n \<ge> int (length words) then t
      else join '' '' (if 0 < n then drop (length words - nat n) words
                       else drop (nat (- n)) words))"

definition make_chunk :: "token_counter \<Rightarrow> string \<Rightarrow> int \<Rightarrow> metadata \<Rightarrow> Chunk" where
  "make_chunk count_tokens t i md =
     \<lparr>c_text = t, c_index = i,
      c_metadata = dict_set (dict_set md ''token_count'' (Meta_int (int (count_tokens t))))
                     ''char_count'' (Meta_int (int (length t)))\<rparr>"

text \<open>
  The loop of \<open>_split_large_paragraph\<close> over the sentences; its state is the list of
  chunks, \<open>current\<close> and \<open>current_tokens\<close>.
\<close>

fun split_large_loop ::
  "token_counter \<Rightarrow> word_estimate \<Rightarrow> int \<Rightarrow> int \<Rightarrow> int \<Rightarrow> metadata \<Rightarrow>
   Chunk list \<Rightarrow> string \<Rightarrow> int \<Rightarrow> string list \<Rightarrow> Chunk list \<times> string" where
  "split_large_loop ct aw chunk_size chunk_overlap start_index md chunks current current_tokens [] =
     (chunks, current)"
| "split_large_loop ct aw chunk_size chunk_overlap start_index md chunks current current_tokens
     (sent # rest) =
     (let sent_tokens = int (ct sent);
          flush = (current_tokens + sent_tokens > chunk_size \<and> strip current \<noteq> []);
          chunks1 = (if flush
                     then chunks @ [make_chunk ct (strip current)
                                      (start_index + int (length chunks)) md]
                     else chunks);
          current1 = (if flush then get_overlap_text aw current chunk_overlap else current);
          current_tokens1 = (if flush then int (ct current1) else current_tokens);
          current2 = (if current1 \<noteq> [] then current1 @ '' '' @ sent else sent)
      in split_large_loop ct aw chunk_size chunk_overlap start_index md chunks1 current2
           (current_tokens1 + sent_tokens) rest)"

definition split_large_paragraph ::
  "token_counter \<Rightarrow> word_estimate \<Rightarrow> string \<Rightarrow> int \<Rightarrow> int \<Rightarrow> int \<Rightarrow> metadata \<Rightarrow> Chunk list" where
  "split_large_paragraph ct aw t chunk_size chunk_overlap start_index md =
     (case split_large_loop ct aw chunk_size chunk_overlap start_index md [] [] 0
             (split_sentences t) of
        (chunks, current) \<Rightarrow>
          if strip current \<noteq> []
          then chunks @ [make_chunk ct (strip current) (start_index + int (length chunks)) md]
          else chunks)"

text \<open>The loop of \<open>chunk_text\<close> over the paragraphs, with the same kind of state.\<close>

fun chunk_loop ::
  "token_counter \<Rightarrow> word_estimate \<Rightarrow> int \<Rightarrow> int \<Rightarrow> metadata \<Rightarrow>
   Chunk list \<Rightarrow> string \<Rightarrow> int \<Rightarrow> string list \<Rightarrow> Chunk list \<times> string" where
  "chunk_loop ct aw chunk_size chunk_overlap md chunks current_text current_tokens [] =
     (chunks, current_text)"
| "chunk_loop ct aw chunk_size chunk_overlap md chunks current_text current_tokens (para # rest) =
     (let para_tokens = int (ct para) in
      if para_tokens > chunk_size then
        (let chunks1 = (if strip current_text \<noteq> []
                        then chunks @ [make_chunk ct (strip current_text)
                                         (int (length chunks)) md]
                        else chunks);
             sub_chunks = split_large_paragraph ct aw para chunk_size chunk_overlap
                            (int (length chunks1)) md;
             chunks2 = chunks1 @ sub_chunks;
             current_text1 = (if chunks2 \<noteq> []
                              then get_overlap_text aw (c_text (last chunks2)) chunk_overlap
                              else [])
         in chunk_loop ct aw chunk_size chunk_overlap md chunks2 current_text1
              (int (ct current_text1)) rest)
      else
        (let flush = (current_tokens + para_tokens > chunk_size \<and> strip current_text \<noteq> []);
             chunks1 = (if flush
                        then chunks @ [make_chunk ct (strip current_text)
                                         (int (length chunks)) md]
                        else chunks);
             current_text1 = (if flush then get_overlap_text aw current_text chunk_overlap
                              else current_text);
             current_tokens1 = (if flush then int (ct current_text1) else current_tokens);
             current_text2 = (if current_text1 \<noteq> []
                              then current_text1 @ [CHR 0x0A, CHR 0x0A] @ para else para)
         in chunk_loop ct aw chunk_size chunk_overlap md chunks1 current_text2
              (current_tokens1 + para_tokens) rest))"

text \<open>
  \<open>chunk_text\<close>. An absent metadata argument and an empty dictionary are the same
  (\<open>metadata or {}\<close>), so the argument is a dictionary.
\<close>

definition chunk_text ::
  "token_counter \<Rightarrow> word_estimate \<Rightarrow> string \<Rightarrow> int \<Rightarrow> int \<Rightarrow> metadata \<Rightarrow> Chunk list" where
  "chunk_text ct aw t chunk_size chunk_overlap md =
     (case chunk_loop ct aw chunk_size chunk_overlap md [] [] 0 (split_paragraphs t) of
        (chunks, current_text) \<Rightarrow>
          if strip current_text \<noteq> []
          then chunks @ [make_chunk ct (strip current_text) (int (length chunks)) md]
          else chunks)"

text \<open>Consecutive indices, counted from \<open>start\<close>.\<close>

definition indexed_from :: "int \<Rightarrow> Chunk list \<Rightarrow> bool" where
  "indexed_from start chunks =
     (map c_index chunks = map (\<lambda>i. start + int i) [0..<length chunks])"


section \<open>Dialogue segmentation (tts/dialogue_parser.py)\<close>

subsection \<open>The cue pattern\<close>

text \<open>
  \<open>_CUE_PATTERN = \[(\w+(?:\s+\w+)?)\]\<close>. \<open>match_cue\<close> is given the text after an
  opening bracket and returns the group of the match with the number of characters
  the match takes after the bracket. Backtracking finds no other match: a shorter run
  of word characters is followed by a word character, and a shorter run of whitespace
  by whitespace, where the pattern needs something else.
\<close>

definition match_cue :: "string \<Rightarrow> (string \<times> nat) option" where
  "match_cue r =
     (let w1 = takeWhile is_word r; r1 = dropWhile is_word r in
      if w1 = [] then None
      else (case r1 of
              [] \<Rightarrow> None
            | c # r2 \<Rightarrow>
                if c = CHR '']'' then Some (w1, length w1 + 1)
                else (let ws = takeWhile is_space r1; r3 = dropWhile is_space r1;
                          w2 = takeWhile is_word r3; r4 = dropWhile is_word r3
                      in if ws \<noteq> [] \<and> w2 \<noteq> [] \<and> r4 \<noteq> [] \<and> hd r4 = CHR '']''
                         then Some (w1 @ ws @ w2, length w1 + length ws + length w2 + 1)
                         else None)))"

text \<open>
  The form of a cue in the specification's words, for comparison: a word, or two words
  separated by whitespace.
\<close>

definition is_cue_phrase :: "string \<Rightarrow> bool" where
  "is_cue_phrase s =
     (let w1 = takeWhile is_word s; r = dropWhile is_word s;
          ws = takeWhile is_space r; w2 = dropWhile is_space r
      in w1 \<noteq> [] \<and> (r = [] \<or> (ws \<noteq> [] \<and> w2 \<noteq> [] \<and> (\<forall>c \<in> set w2. is_word c))))"

text \<open>
  The scan of \<open>findall\<close> and \<open>sub\<close>: from left to right, a match is taken where one
  starts and the scan goes on after it; every other character is kept.
\<close>

datatype token = Cue string | Ch char

fun cue_scan :: "string \<Rightarrow> token list" where
  "cue_scan [] = []"
| "cue_scan (c # cs) =
     (case (if c = CHR ''['' then match_cue cs else None) of
        Some (g, n) \<Rightarrow> Cue g # cue_scan (drop n cs)
      | None \<Rightarrow> Ch c # cue_scan cs)"

fun token_cue :: "token \<Rightarrow> string list" where
  "token_cue (Cue g) = [g]"
| "token_cue (Ch c) = []"

fun token_char :: "token \<Rightarrow> string" where
  "token_char (Cue g) = []"
| "token_char (Ch c) = [c]"

text \<open>\<open>_CUE_PATTERN.findall(text)\<close> and \<open>_CUE_PATTERN.sub("", text)\<close>\<close>

definition cue_findall :: "string \<Rightarrow> string list" where
  "cue_findall t = concat (map token_cue (cue_scan t))"

definition cue_sub :: "string \<Rightarrow> string" where
  "cue_sub t = concat (map token_char (cue_scan t))"

text \<open>\<open>re.sub(r"\s{2,}", " ", text)\<close>: a run of two or more whitespace characters
  becomes one space; a single whitespace character stays as it is. The scan remembers
  whether it is inside a run that it has replaced.\<close>

fun collapse_ws_from :: "bool \<Rightarrow> string \<Rightarrow> string" where
  "collapse_ws_from in_run [] = []"
| "collapse_ws_from in_run (c # cs) =
     (if is_space c then
        (if in_run then collapse_ws_from True cs
         else if cs \<noteq> [] \<and> is_space (hd cs) then CHR '' '' # collapse_ws_from True cs
         else c # collapse_ws_from False cs)
      else c # collapse_ws_from False cs)"

definition collapse_ws :: "string \<Rightarrow> string" where
  "collapse_ws t = collapse_ws_from False t"

definition clean_text :: "string \<Rightarrow> string" where
  "clean_text t = collapse_ws (strip (cue_sub t))"

subsection \<open>Speaker markers and turns\<close>

text \<open>
  A marker pattern is given by its matcher: on the text from a position on, the group
  of the match and the length of the match. The default pattern of
  \<open>_split_into_turns\<close> is \<open>^(HOST_[AB])\s*:\<close>.
\<close>

type_synonym matcher = "string \<Rightarrow> (string \<times> nat) option"

definition match_host_label :: matcher where
  "match_host_label s =
     (if take 6 s = ''HOST_A'' \<or> take 6 s = ''HOST_B''
      then (let ws = takeWhile is_space (drop 6 s); r = dropWhile is_space (drop 6 s) in
            if r \<noteq> [] \<and> hd r = CHR '':'' then Some (take 6 s, 6 + length ws + 1) else None)
      else None)"

text \<open>
  \<open>_DIALOGUE_PATTERN = ^\*{0,2}(\w+)\*{0,2}\s*:\s*\<close>. With three or more asterisks in
  a row the pattern does not match, since an asterisk is not a word character.
\<close>

definition match_dialogue_label :: matcher where
  "match_dialogue_label s =
     (let stars1 = takeWhile (\<lambda>c. c = CHR ''*'') s; r1 = dropWhile (\<lambda>c. c = CHR ''*'') s;
          name = takeWhile is_word r1; r2 = dropWhile is_word r1;
          stars2 = takeWhile (\<lambda>c. c = CHR ''*'') r2; r3 = dropWhile (\<lambda>c. c = CHR ''*'') r2;
          ws1 = takeWhile is_space r3; r4 = dropWhile is_space r3;
          ws2 = takeWhile is_space (tl r4)
      in if length stars1 \<le> 2 \<and> name \<noteq> [] \<and> length stars2 \<le> 2 \<and> r4 \<noteq> [] \<and>
            hd r4 = CHR '':''
         then Some (name, length stars1 + length name + length stars2 + length ws1 + 1 +
                          length ws2)
         else None)"

text \<open>
  \<open>re.finditer\<close> with a pattern anchored by \<open>^\<close> in multi-line mode: a match can start
  at the beginning of the script and after a line feed. The scan carries the previous
  character; it gives the markers found and, between them, the characters that belong
  to no marker.
\<close>

fun marker_scan :: "matcher \<Rightarrow> char option \<Rightarrow> string \<Rightarrow> (string + char) list" where
  "marker_scan m prev [] = []"
| "marker_scan m prev (c # cs) =
     (case (if prev = None \<or> prev = Some (CHR 0x0A) then m (c # cs) else None) of
        Some (label, n) \<Rightarrow>
          Inl label # marker_scan m (Some (last (c # take (n - 1) cs))) (drop (n - 1) cs)
      | None \<Rightarrow> Inr c # marker_scan m (Some c) cs)"

text \<open>
  The text of a turn runs from the end of its marker to the start of the next marker or
  the end of the script. \<open>turns_of\<close> gives the text before the first marker and the
  turns.
\<close>

fun turns_of :: "(string + char) list \<Rightarrow> string \<times> (string \<times> string) list" where
  "turns_of [] = ([], [])"
| "turns_of (Inr c # items) = (case turns_of items of (t, ts) \<Rightarrow> (c # t, ts))"
| "turns_of (Inl label # items) = (case turns_of items of (t, ts) \<Rightarrow> ([], (label, t) # ts))"

definition split_into_turns :: "matcher \<Rightarrow> string \<Rightarrow> (string \<times> string) list" where
  "split_into_turns m script =
     filter (\<lambda>(speaker, t). t \<noteq> [])
       (map (\<lambda>(speaker, t). (speaker, strip (lstrip_star (strip t))))
          (snd (turns_of (marker_scan m None script))))"

subsection \<open>Long segments\<close>

definition MAX_SEGMENT_CHARS :: nat where
  "MAX_SEGMENT_CHARS = 500"

fun split_long_loop :: "string list \<Rightarrow> string \<Rightarrow> string list \<Rightarrow> string list \<times> string" where
  "split_long_loop parts current [] = (parts, current)"
| "split_long_loop parts current (sent # rest) =
     (if length current + length sent > MAX_SEGMENT_CHARS \<and> current \<noteq> []
      then split_long_loop (parts @ [strip current]) sent rest
      else split_long_loop parts (if current \<noteq> [] then current @ '' '' @ sent else sent) rest)"

definition split_long_segment :: "string \<Rightarrow> string list" where
  "split_long_segment t =
     (case split_long_loop [] [] (split_sentences t) of
        (parts, current) \<Rightarrow> if strip current \<noteq> [] then parts @ [strip current] else parts)"

subsection \<open>The two parsers\<close>

text \<open>
  \<open>parse_script\<close> and \<open>parse_dialogue\<close> have the same loop body once the speaker of the
  turn is known; it is \<open>append_turn\<close>. \<open>append_subs\<close> is its inner loop over the
  enumerated parts of a long turn.
\<close>

fun append_subs ::
  "SpeakerSegment list \<Rightarrow> Speaker \<Rightarrow> string list \<Rightarrow> nat \<Rightarrow> string list \<Rightarrow> SpeakerSegment list"
  where
  "append_subs segments spk cs j [] = segments"
| "append_subs segments spk cs j (sub # rest) =
     append_subs
       (segments @ [\<lparr>speaker = spk, s_text = sub, s_index = int (length segments),
                     cues = (if j = 0 then cs else [])\<rparr>])
       spk cs (Suc j) rest"

definition append_turn :: "SpeakerSegment list \<Rightarrow> Speaker \<Rightarrow> string \<Rightarrow> SpeakerSegment list" where
  "append_turn segments spk t =
     (let cs = cue_findall t; clean = clean_text t in
      if clean = [] then segments
      else if length clean > MAX_SEGMENT_CHARS
        then append_subs segments spk cs 0 (split_long_segment clean)
      else segments @ [\<lparr>speaker = spk, s_text = clean, s_index = int (length segments),
                         cues = cs\<rparr>])"

definition parse_script :: "string \<Rightarrow> SpeakerSegment list" where
  "parse_script script =
     foldl (\<lambda>segments (speaker_str, t).
              append_turn segments (if speaker_str = ''HOST_A'' then HOST_A else HOST_B) t)
       [] (split_into_turns match_host_label script)"

text \<open>
  The default name map is built from the two voice personas (tts/voice_config.py), named
  Mike and Sarah, and the two canonical labels.
\<close>

definition default_name_map :: "string \<rightharpoonup> Speaker" where
  "default_name_map =
     map_of [(''Mike'', HOST_A), (''Sarah'', HOST_B), (''HOST_A'', HOST_A),
             (''HOST_B'', HOST_B)]"

text \<open>
  The loop of \<open>parse_dialogue\<close>; next to the segments, its state holds the warnings
  written to the log.
\<close>

definition unknown_speaker_warning :: "string \<Rightarrow> string" where
  "unknown_speaker_warning name =
     ''Unknown speaker '' @ [CHR 0x27] @ name @ [CHR 0x27] @ '', skipping segment''"

fun dialogue_loop ::
  "(string \<rightharpoonup> Speaker) \<Rightarrow> SpeakerSegment list \<Rightarrow> string list \<Rightarrow> (string \<times> string) list \<Rightarrow>
   SpeakerSegment list \<times> string list" where
  "dialogue_loop name_map segments warnings [] = (segments, warnings)"
| "dialogue_loop name_map segments warnings ((speaker_name, t) # rest) =
     (case name_map speaker_name of
        None \<Rightarrow> dialogue_loop name_map segments
                  (warnings @ [unknown_speaker_warning speaker_name]) rest
      | Some spk \<Rightarrow> dialogue_loop name_map (append_turn segments spk t) warnings rest)"

definition name_map_or_default :: "(string \<rightharpoonup> Speaker) option \<Rightarrow> (string \<rightharpoonup> Speaker)" where
  "name_map_or_default name_map = (case name_map of None \<Rightarrow> default_name_map | Some m \<Rightarrow> m)"

definition parse_dialogue ::
  "string \<Rightarrow> (string \<rightharpoonup> Speaker) option \<Rightarrow> SpeakerSegment list \<times> string list" where
  "parse_dialogue script name_map =
     dialogue_loop (name_map_or_default name_map) [] []
       (split_into_turns match_dialogue_label script)"

subsection \<open>Serialization\<close>

definition segment_line :: "SpeakerSegment \<Rightarrow> string" where
  "segment_line seg =
     (let cues_str = join '' '' (map (\<lambda>c. ''['' @ c @ '']'') (cues seg));
          prefix = (if cues_str \<noteq> [] then cues_str @ '' '' else [])
      in speaker_value (speaker seg) @ '': '' @ prefix @ s_text seg)"

definition segments_to_script :: "SpeakerSegment list \<Rightarrow> string" where
  "segments_to_script segments = join [CHR 0x0A, CHR 0x0A] (map segment_line segments)"

subsection \<open>Conditions for parsing a serialized script again\<close>

text \<open>
  \<open>label_free t\<close>: after no line feed of \<open>t\<close> does the default speaker pattern match,
  that is, no line of \<open>t\<close> but the first begins with a canonical label and a colon.
\<close>

fun label_free :: "string \<Rightarrow> bool" where
  "label_free [] = True"
| "label_free (c # cs) = ((c = CHR 0x0A \<longrightarrow> match_host_label cs = None) \<and> label_free cs)"

text \<open>The cue prefix of a serialized line, written cue by cue.\<close>

definition cue_prefix :: "string list \<Rightarrow> string" where
  "cue_prefix cs = concat (map (\<lambda>c. ''['' @ c @ ''] '') cs)"

text \<open>The turn that a serialized segment is: its label and its body.\<close>

definition turn_of_segment :: "SpeakerSegment \<Rightarrow> string \<times> string" where
  "turn_of_segment seg =
     (speaker_value (speaker seg), cue_prefix (cues seg) @ s_text seg)"

text \<open>
  The conditions on a segment under which its serialized form is parsed back to it: its
  text holds no cue marker; without cues, the text does not begin with an asterisk
  (which \<open>_split_into_turns\<close> would strip); and no line of the serialized segment but
  the first begins with a canonical label and a colon.
\<close>

definition reparsable :: "SpeakerSegment \<Rightarrow> bool" where
  "reparsable seg =
     (cue_findall (s_text seg) = [] \<and>
      (cues seg = [] \<longrightarrow> hd (s_text seg) \<noteq> CHR ''*'') \<and>
      label_free (segment_line seg))"

text \<open>
  A part that the sentence splitter of long segments holds together: trimmed,
  single-spaced, and its sentences are joined again without a flush.
\<close>

definition held :: "string \<Rightarrow> bool" where
  "held p =
     (trimmed p \<and> spaced p \<and> split_long_loop [] [] (split_sentences p) = ([], p))"


text \<open>
  What every segment made by the parsers satisfies: its text is trimmed and single-spaced,
  its cues are cue phrases, and its text, when longer than the limit, is one part for
  the sentence splitter.
\<close>

definition normal_segment :: "SpeakerSegment \<Rightarrow> bool" where
  "normal_segment seg =
     (trimmed (s_text seg) \<and> spaced (s_text seg) \<and>
      (\<forall>g \<in> set (cues seg). is_cue_phrase g) \<and>
      (length (s_text seg) > MAX_SEGMENT_CHARS \<longrightarrow>
         split_long_segment (s_text seg) = [s_text seg]))"


section \<open>Sample inputs for concrete evaluations\<close>

subsection \<open>Sample agents\<close>

text \<open>Concrete agents, used to run the pipeline on explicit inputs.\<close>

definition sample_generate_fails :: generate_fn where
  "sample_generate_fails t c coll = Inl ''timeout''"

definition sample_generate_ok :: generate_fn where
  "sample_generate_ok t c coll = Inr (''HOST_A: '' @ t)"

definition sample_check_fails :: check_fn where
  "sample_check_fails script coll = Inl ''rate limit''"

definition sample_rewrite_ok :: rewrite_fn where
  "sample_rewrite_ok script = Inr (script @ '' [pause]'')"

definition sample_rewrite_fails :: rewrite_fn where
  "sample_rewrite_fails script = Inl ''rate limit''"


subsection \<open>Sample turns\<close>

definition turn_a :: SpeakerSegment where
  "turn_a = \<lparr>speaker = HOST_A, s_text = ''Welcome.'', s_index = 0, cues = []\<rparr>"


subsection \<open>Sample estimators for the chunking engine\<close>



subsection \<open>Sample scripts\<close>





text \<open>A script of two turns with cues, and a turn with a cue inside a bracketed phrase.\<close>

definition greeting_script :: string where
  "greeting_script =
     ''HOST_A: Welcome back. [pause] Ready?'' @ [CHR 0x0A] @ ''HOST_B: [laughs] Always.''"

definition nested_cue_script :: string where
  "nested_cue_script = ''HOST_A: Right [so [pause] then] okay''"

section \<open>Properties of the pipeline controller\<close>

lemma run_pipeline_generate_fails:
  assumes "gen t c coll = Inl e"
  shows "run_pipeline gen chk enh opt t c coll =
           (Aborted, (initial_state t c coll)\<lparr>errors := [''Script generation: '' @ e]\<rparr>)"
  using assms
  by (simp add: run_pipeline_def node_generate_script_def merge_updates_def
      initial_state_def should_continue_def)

lemma accuracy_step:
  "raw_script (merge_updates s (node_accuracy_check chk s)) = raw_script s"
  "collection_name (merge_updates s (node_accuracy_check chk s)) = collection_name s"
  "accuracy_checked_script s = [] \<Longrightarrow>
   accuracy_checked_script (merge_updates s (node_accuracy_check chk s)) =
     (if stage_ok (raw_script s) (chk (raw_script s) (collection_name s))
      then projr (chk (raw_script s) (collection_name s)) else raw_script s)"
  "enhanced_script (merge_updates s (node_accuracy_check chk s)) = enhanced_script s"
  "final_script (merge_updates s (node_accuracy_check chk s)) = final_script s"
  by (simp_all add: node_accuracy_check_def merge_updates_def stage_ok_def Let_def
      split: sum.splits)

lemma storytelling_step:
  "raw_script (merge_updates s (node_storytelling enh s)) = raw_script s"
  "collection_name (merge_updates s (node_storytelling enh s)) = collection_name s"
  "accuracy_checked_script (merge_updates s (node_storytelling enh s)) = accuracy_checked_script s"
  "enhanced_script s = [] \<Longrightarrow>
   enhanced_script (merge_updates s (node_storytelling enh s)) =
     (if stage_ok (accuracy_checked_script s) (enh (accuracy_checked_script s))
      then projr (enh (accuracy_checked_script s)) else accuracy_checked_script s)"
  "final_script (merge_updates s (node_storytelling enh s)) = final_script s"
  by (simp_all add: node_storytelling_def merge_updates_def stage_ok_def Let_def
      split: sum.splits)

lemma engagement_step:
  "raw_script (merge_updates s (node_engagement opt s)) = raw_script s"
  "collection_name (merge_updates s (node_engagement opt s)) = collection_name s"
  "accuracy_checked_script (merge_updates s (node_engagement opt s)) = accuracy_checked_script s"
  "enhanced_script (merge_updates s (node_engagement opt s)) = enhanced_script s"
  "final_script s = [] \<Longrightarrow>
   final_script (merge_updates s (node_engagement opt s)) =
     (if stage_ok (enhanced_script s) (opt (enhanced_script s))
      then projr (opt (enhanced_script s)) else enhanced_script s)"
  by (simp_all add: node_engagement_def merge_updates_def stage_ok_def Let_def
      split: sum.splits)


lemma run_pipeline_continue:
  assumes "gen t c coll = Inr s"
  shows "run_pipeline gen chk enh opt t c coll =
           (Completed, later_stages chk enh opt ((initial_state t c coll)\<lparr>raw_script := s\<rparr>))"
  using assms
  by (simp add: run_pipeline_def node_generate_script_def merge_updates_def
      initial_state_def should_continue_def later_stages_def Let_def)

lemma later_stages_fields:
  fixes chk :: check_fn and enh opt :: rewrite_fn and s1 :: GraphState
  assumes "accuracy_checked_script s1 = []" "enhanced_script s1 = []" "final_script s1 = []"
  defines "st \<equiv> later_stages chk enh opt s1"
  shows "raw_script st = raw_script s1"
    and "collection_name st = collection_name s1"
    and "accuracy_checked_script st =
           (if stage_ok (raw_script st) (chk (raw_script st) (collection_name st))
            then projr (chk (raw_script st) (collection_name st)) else raw_script st)"
    and "enhanced_script st =
           (if stage_ok (accuracy_checked_script st) (enh (accuracy_checked_script st))
            then projr (enh (accuracy_checked_script st)) else accuracy_checked_script st)"
    and "final_script st =
           (if stage_ok (enhanced_script st) (opt (enhanced_script st))
            then projr (opt (enhanced_script st)) else enhanced_script st)"
proof -
  define s2 where "s2 = merge_updates s1 (node_accuracy_check chk s1)"
  define s3 where "s3 = merge_updates s2 (node_storytelling enh s2)"
  have st: "st = merge_updates s3 (node_engagement opt s3)"
    by (simp add: st_def later_stages_def s2_def s3_def Let_def)
  have r2: "raw_script s2 = raw_script s1" "collection_name s2 = collection_name s1"
    "enhanced_script s2 = []" "final_script s2 = []"
    using assms(2,3) by (simp_all add: s2_def accuracy_step)
  have a2: "accuracy_checked_script s2 =
      (if stage_ok (raw_script s1) (chk (raw_script s1) (collection_name s1))
       then projr (chk (raw_script s1) (collection_name s1)) else raw_script s1)"
    unfolding s2_def using assms(1) by (rule accuracy_step(3))
  have r3: "raw_script s3 = raw_script s1" "collection_name s3 = collection_name s1"
    "accuracy_checked_script s3 = accuracy_checked_script s2" "final_script s3 = []"
    using r2 by (simp_all add: s3_def storytelling_step)
  have e3: "enhanced_script s3 =
      (if stage_ok (accuracy_checked_script s2) (enh (accuracy_checked_script s2))
       then projr (enh (accuracy_checked_script s2)) else accuracy_checked_script s2)"
    unfolding s3_def using r2(3) by (rule storytelling_step(4))
  have r4: "raw_script st = raw_script s1" "collection_name st = collection_name s1"
    "accuracy_checked_script st = accuracy_checked_script s2"
    "enhanced_script st = enhanced_script s3"
    using r3 by (simp_all add: st engagement_step)
  have f4: "final_script st =
      (if stage_ok (enhanced_script s3) (opt (enhanced_script s3))
       then projr (opt (enhanced_script s3)) else enhanced_script s3)"
    unfolding st using r3(4) by (rule engagement_step(5))
  show "raw_script st = raw_script s1" "collection_name st = collection_name s1"
    by (fact r4)+
  show "accuracy_checked_script st =
           (if stage_ok (raw_script st) (chk (raw_script st) (collection_name st))
            then projr (chk (raw_script st) (collection_name st)) else raw_script st)"
    unfolding r4 by (fact a2)
  show "enhanced_script st =
           (if stage_ok (accuracy_checked_script st) (enh (accuracy_checked_script st))
            then projr (enh (accuracy_checked_script st)) else accuracy_checked_script st)"
    unfolding r4 by (fact e3)
  show "final_script st =
           (if stage_ok (enhanced_script st) (opt (enhanced_script st))
            then projr (opt (enhanced_script st)) else enhanced_script st)"
    unfolding r4 by (fact f4)
qed

lemma stage_errors_steps:
  "errors (merge_updates s (node_accuracy_check chk s)) =
     errors s @ stage_errors ''No script to fact-check'' ''Accuracy check: '' (raw_script s)
                  (chk (raw_script s) (collection_name s))"
  "errors (merge_updates s (node_storytelling enh s)) =
     errors s @ stage_errors ''No script to enhance'' ''Storytelling: ''
                  (accuracy_checked_script s) (enh (accuracy_checked_script s))"
  "errors (merge_updates s (node_engagement opt s)) =
     errors s @ stage_errors ''No script to optimize'' ''Engagement: '' (enhanced_script s)
                  (opt (enhanced_script s))"
  by (simp_all add: node_accuracy_check_def node_storytelling_def node_engagement_def
      merge_updates_def stage_errors_def Let_def split: sum.splits)

lemma later_stages_errors:
  fixes chk :: check_fn and enh opt :: rewrite_fn and s1 :: GraphState
  assumes "accuracy_checked_script s1 = []" "enhanced_script s1 = []" "final_script s1 = []"
  defines "st \<equiv> later_stages chk enh opt s1"
  shows "errors st =
     errors s1 @
     stage_errors ''No script to fact-check'' ''Accuracy check: '' (raw_script st)
       (chk (raw_script st) (collection_name st)) @
     stage_errors ''No script to enhance'' ''Storytelling: '' (accuracy_checked_script st)
       (enh (accuracy_checked_script st)) @
     stage_errors ''No script to optimize'' ''Engagement: '' (enhanced_script st)
       (opt (enhanced_script st))"
proof -
  define s2 where "s2 = merge_updates s1 (node_accuracy_check chk s1)"
  define s3 where "s3 = merge_updates s2 (node_storytelling enh s2)"
  have st: "st = merge_updates s3 (node_engagement opt s3)"
    by (simp add: st_def later_stages_def s2_def s3_def Let_def)
  have f: "raw_script st = raw_script s1" "collection_name st = collection_name s1"
    "accuracy_checked_script st = accuracy_checked_script s2"
    "enhanced_script st = enhanced_script s3"
    by (simp_all add: st s3_def s2_def engagement_step storytelling_step accuracy_step)
  have e2: "errors s2 = errors s1 @
      stage_errors ''No script to fact-check'' ''Accuracy check: '' (raw_script s1)
        (chk (raw_script s1) (collection_name s1))"
    unfolding s2_def by (rule stage_errors_steps(1))
  have e3: "errors s3 = errors s2 @
      stage_errors ''No script to enhance'' ''Storytelling: '' (accuracy_checked_script s2)
        (enh (accuracy_checked_script s2))"
    unfolding s3_def by (rule stage_errors_steps(2))
  have e4: "errors st = errors s3 @
      stage_errors ''No script to optimize'' ''Engagement: '' (enhanced_script s3)
        (opt (enhanced_script s3))"
    unfolding st by (rule stage_errors_steps(3))
  show ?thesis unfolding f e4 e3 e2 by simp
qed

text \<open>
  Claim C1. For every run of the pipeline: when script generation fails, the run ends
  on the abort edge with the raw script and the final script both empty and a non-empty
  error list. Otherwise the run ends after the last node, and the raw script is the
  script that the generator returned; a later stage (fact check, storytelling,
  engagement) that fails, because its agent raises or because it is given no script,
  leaves in its output field the previous stage's output, and a stage that succeeds
  leaves there what its agent returned; the final script is the output of the last
  stage that succeeded, counted from the generator's result. Every failure adds its
  message to the error list, and nothing else does.
\<close>

theorem pipeline_failure_policy:
  "let r = run_pipeline gen chk enh opt t c coll; st = snd r in
     (isl (gen t c coll) \<longrightarrow>
        fst r = Aborted \<and> raw_script st = [] \<and> final_script st = [] \<and> errors st \<noteq> []
      \<and> errors st = [''Script generation: '' @ projl (gen t c coll)])
   \<and> (\<not> isl (gen t c coll) \<longrightarrow>
        fst r = Completed
      \<and> raw_script st = projr (gen t c coll)
      \<and> accuracy_checked_script st = carried (projr (gen t c coll)) (\<lambda>script. chk script coll)
      \<and> enhanced_script st = carried (accuracy_checked_script st) enh
      \<and> final_script st = carried (enhanced_script st) opt
      \<and> (\<not> stage_ok (raw_script st) (chk (raw_script st) coll) \<longrightarrow>
           accuracy_checked_script st = raw_script st)
      \<and> (\<not> stage_ok (accuracy_checked_script st) (enh (accuracy_checked_script st)) \<longrightarrow>
           enhanced_script st = accuracy_checked_script st)
      \<and> (\<not> stage_ok (enhanced_script st) (opt (enhanced_script st)) \<longrightarrow>
           final_script st = enhanced_script st)
      \<and> final_script st = last_successful_output gen chk enh opt t c coll
      \<and> errors st =
          stage_errors ''No script to fact-check'' ''Accuracy check: '' (raw_script st)
            (chk (raw_script st) coll) @
          stage_errors ''No script to enhance'' ''Storytelling: '' (accuracy_checked_script st)
            (enh (accuracy_checked_script st)) @
          stage_errors ''No script to optimize'' ''Engagement: '' (enhanced_script st)
            (opt (enhanced_script st)))"
proof (cases "gen t c coll")
  case (Inl e)
  then show ?thesis
    by (simp add: run_pipeline_generate_fails initial_state_def)
next
  case (Inr s)
  define s1 where "s1 = (initial_state t c coll)\<lparr>raw_script := s\<rparr>"
  define st where "st = later_stages chk enh opt s1"
  have run: "run_pipeline gen chk enh opt t c coll = (Completed, st)"
    using Inr by (simp add: run_pipeline_continue st_def s1_def)
  have init: "accuracy_checked_script s1 = []" "enhanced_script s1 = []" "final_script s1 = []"
    by (simp_all add: s1_def initial_state_def)
  note f = later_stages_fields [OF init, of chk enh opt, folded st_def]
  have raw: "raw_script st = s" using f(1) by (simp add: s1_def)
  have coll: "collection_name st = coll" using f(2) by (simp add: s1_def initial_state_def)
  have a: "accuracy_checked_script st = carried s (\<lambda>script. chk script coll)"
    using f(3) unfolding raw coll by (simp add: carried_def)
  have e: "enhanced_script st = carried (accuracy_checked_script st) enh"
    using f(4) by (simp add: carried_def)
  have p: "final_script st = carried (enhanced_script st) opt"
    using f(5) by (simp add: carried_def)
  have a': "\<not> stage_ok s (chk s coll) \<Longrightarrow> accuracy_checked_script st = s"
    using a by (simp add: carried_def)
  have e': "\<not> stage_ok (accuracy_checked_script st) (enh (accuracy_checked_script st)) \<Longrightarrow>
           enhanced_script st = accuracy_checked_script st"
    using e by (simp add: carried_def)
  have p': "\<not> stage_ok (enhanced_script st) (opt (enhanced_script st)) \<Longrightarrow>
           final_script st = enhanced_script st"
    using p by (simp add: carried_def)
  define checked where "checked = carried s (\<lambda>script. chk script coll)"
  define enhanced where "enhanced = carried checked enh"
  have fields: "accuracy_checked_script st = checked" "enhanced_script st = enhanced"
    "final_script st = carried enhanced opt"
    using a e p by (simp_all add: checked_def enhanced_def)
  have "last_successful_output gen chk enh opt t c coll =
      (if stage_ok enhanced (opt enhanced) then projr (opt enhanced)
       else if stage_ok checked (enh checked) then projr (enh checked)
       else if stage_ok s (chk s coll) then projr (chk s coll)
       else s)"
    by (simp add: last_successful_output_def Inr Let_def checked_def enhanced_def)
  also have "\<dots> = carried enhanced opt"
    unfolding carried_def [of enhanced opt]
    by (simp add: enhanced_def checked_def carried_def)
  finally have l: "final_script st = last_successful_output gen chk enh opt t c coll"
    using fields(3) by simp
  have er: "errors st =
      stage_errors ''No script to fact-check'' ''Accuracy check: '' s (chk s coll) @
      stage_errors ''No script to enhance'' ''Storytelling: '' (accuracy_checked_script st)
        (enh (accuracy_checked_script st)) @
      stage_errors ''No script to optimize'' ''Engagement: '' (enhanced_script st)
        (opt (enhanced_script st))"
    using later_stages_errors [OF init, of chk enh opt, folded st_def]
    unfolding raw coll by (simp add: s1_def initial_state_def)
  show ?thesis
    unfolding run Let_def fst_conv snd_conv using Inr raw a e p a' e' p' l er by simp
qed

theorem pipeline_failure_policy_witness:
  "fst (run_pipeline sample_generate_fails sample_check_fails sample_rewrite_ok
          sample_rewrite_fails ''T'' ''C'' ''K'') = Aborted
   \<and> errors (snd (run_pipeline sample_generate_fails sample_check_fails sample_rewrite_ok
          sample_rewrite_fails ''T'' ''C'' ''K'')) \<noteq> []
   \<and> fst (run_pipeline sample_generate_ok sample_check_fails sample_rewrite_ok
          sample_rewrite_fails ''T'' ''C'' ''K'') = Completed
   \<and> final_script (snd (run_pipeline sample_generate_ok sample_check_fails sample_rewrite_ok
          sample_rewrite_fails ''T'' ''C'' ''K'')) = ''HOST_A: T [pause]''
   \<and> final_script (snd (run_pipeline sample_generate_ok sample_check_fails sample_rewrite_fails
          sample_rewrite_fails ''T'' ''C'' ''K'')) = ''HOST_A: T''
   \<and> errors (snd (run_pipeline sample_generate_ok sample_check_fails sample_rewrite_fails
          sample_rewrite_fails ''T'' ''C'' ''K'')) =
       [''Accuracy check: rate limit'', ''Storytelling: rate limit'', ''Engagement: rate limit'']"
proof -
  have g1: "isl (sample_generate_fails ''T'' ''C'' ''K'')"
    by (simp add: sample_generate_fails_def)
  have g2: "\<not> isl (sample_generate_ok ''T'' ''C'' ''K'')"
    by (simp add: sample_generate_ok_def)
  note w1 = pipeline_failure_policy [of sample_generate_fails sample_check_fails
      sample_rewrite_ok sample_rewrite_fails "''T''" "''C''" "''K''", unfolded Let_def]
  note w2 = pipeline_failure_policy [of sample_generate_ok sample_check_fails
      sample_rewrite_ok sample_rewrite_fails "''T''" "''C''" "''K''", unfolded Let_def]
  note w3 = pipeline_failure_policy [of sample_generate_ok sample_check_fails
      sample_rewrite_fails sample_rewrite_fails "''T''" "''C''" "''K''", unfolded Let_def]
  have a: "fst (run_pipeline sample_generate_fails sample_check_fails sample_rewrite_ok
          sample_rewrite_fails ''T'' ''C'' ''K'') = Aborted"
    and b: "errors (snd (run_pipeline sample_generate_fails sample_check_fails sample_rewrite_ok
          sample_rewrite_fails ''T'' ''C'' ''K'')) \<noteq> []"
    using w1 g1 by blast+
  have c: "fst (run_pipeline sample_generate_ok sample_check_fails sample_rewrite_ok
          sample_rewrite_fails ''T'' ''C'' ''K'') = Completed"
    using w2 g2 by blast
  have d: "final_script (snd (run_pipeline sample_generate_ok sample_check_fails
          sample_rewrite_ok sample_rewrite_fails ''T'' ''C'' ''K'')) =
        last_successful_output sample_generate_ok sample_check_fails sample_rewrite_ok
          sample_rewrite_fails ''T'' ''C'' ''K''"
    using w2 g2 by blast
  have e: "last_successful_output sample_generate_ok sample_check_fails sample_rewrite_ok
          sample_rewrite_fails ''T'' ''C'' ''K'' = ''HOST_A: T [pause]''"
    by (simp add: last_successful_output_def carried_def stage_ok_def sample_generate_ok_def
        sample_check_fails_def sample_rewrite_ok_def sample_rewrite_fails_def)
  have d3: "final_script (snd (run_pipeline sample_generate_ok sample_check_fails
          sample_rewrite_fails sample_rewrite_fails ''T'' ''C'' ''K'')) =
        last_successful_output sample_generate_ok sample_check_fails sample_rewrite_fails
          sample_rewrite_fails ''T'' ''C'' ''K''"
    using w3 g2 by blast
  have e3: "last_successful_output sample_generate_ok sample_check_fails sample_rewrite_fails
          sample_rewrite_fails ''T'' ''C'' ''K'' = ''HOST_A: T''"
    by (simp add: last_successful_output_def carried_def stage_ok_def sample_generate_ok_def
        sample_check_fails_def sample_rewrite_fails_def)
  have r3: "raw_script (snd (run_pipeline sample_generate_ok sample_check_fails
          sample_rewrite_fails sample_rewrite_fails ''T'' ''C'' ''K'')) = ''HOST_A: T''"
    and a3: "accuracy_checked_script (snd (run_pipeline sample_generate_ok sample_check_fails
          sample_rewrite_fails sample_rewrite_fails ''T'' ''C'' ''K'')) = ''HOST_A: T''"
    using w3 g2
    by (simp_all add: carried_def stage_ok_def sample_generate_ok_def sample_check_fails_def)
  have n3: "enhanced_script (snd (run_pipeline sample_generate_ok sample_check_fails
          sample_rewrite_fails sample_rewrite_fails ''T'' ''C'' ''K'')) = ''HOST_A: T''"
    using w3 g2 unfolding a3
    by (simp add: carried_def stage_ok_def sample_rewrite_fails_def)
  have f3: "errors (snd (run_pipeline sample_generate_ok sample_check_fails
          sample_rewrite_fails sample_rewrite_fails ''T'' ''C'' ''K'')) =
       [''Accuracy check: rate limit'', ''Storytelling: rate limit'', ''Engagement: rate limit'']"
    using w3 g2 unfolding r3 a3 n3
    by (simp add: stage_errors_def sample_check_fails_def sample_rewrite_fails_def)
  show ?thesis using a b c d e d3 e3 f3 by simp
qed

section \<open>Properties of the timeline sequencer\<close>









text \<open>
  Claim C2, as stated, fails: two spans and one turn are assembled without an error.
\<close>

theorem assemble_podcast_accepts_mismatch:
  "length [1::nat, 2] \<noteq> length [turn_a]
   \<and> assemble_podcast 400 None None [1::nat, 2] [turn_a] None = Inr [Clip 1]"
  by (simp add: assemble_podcast_def pause_or_default_def turn_a_def)

text \<open>
  Claim C2, amended. A call with an audio-span list and a turn list of different lengths
  is not rejected: no error is raised, and the result is the podcast assembled from both
  lists cut to the length of the shorter one.
\<close>

theorem assemble_podcast_truncates:
  "\<not> isl (assemble_podcast cfg intro outro spans turns pause_arg)
   \<and> assemble_podcast cfg intro outro spans turns pause_arg =
     assemble_podcast cfg intro outro
       (take (min (length spans) (length turns)) spans)
       (take (min (length spans) (length turns)) turns) pause_arg"
proof -
  have "zip (take (min (length spans) (length turns)) spans)
            (take (min (length spans) (length turns)) turns) =
        take (min (length spans) (length turns)) (zip spans turns)"
    by (simp add: take_zip)
  also have "\<dots> = zip spans turns" by simp
  finally show ?thesis by (simp add: assemble_podcast_def Let_def)
qed


section \<open>Properties of the string operations\<close>

lemma last_dropWhile: "dropWhile P xs \<noteq> [] \<Longrightarrow> last (dropWhile P xs) = last xs"
  by (induction xs) (auto split: if_splits)

lemma strip_trimmed: "trimmed s \<Longrightarrow> strip s = s"
proof -
  assume t: "trimmed s"
  then have 1: "dropWhile is_space s = s"
    by (cases s) (simp_all add: trimmed_def)
  have "rev s \<noteq> []" "\<not> is_space (hd (rev s))"
    using t by (simp_all add: trimmed_def hd_rev)
  then have "dropWhile is_space (rev s) = rev s"
    by (cases "rev s") simp_all
  then show ?thesis by (simp add: strip_def 1)
qed

lemma trimmed_strip: "strip s \<noteq> [] \<Longrightarrow> trimmed (strip s)"
proof -
  assume ne: "strip s \<noteq> []"
  define u where "u = dropWhile is_space s"
  define v where "v = dropWhile is_space (rev u)"
  have s: "strip s = rev v" by (simp add: strip_def u_def v_def)
  have v: "v \<noteq> []" using ne s by simp
  then have u: "u \<noteq> []" by (auto simp: v_def)
  have "\<not> is_space (hd v)" using v unfolding v_def by (rule hd_dropWhile)
  moreover have "last v = last (rev u)" using v unfolding v_def by (rule last_dropWhile)
  moreover have "\<not> is_space (hd u)" using u unfolding u_def by (rule hd_dropWhile)
  ultimately show ?thesis
    using v u by (simp add: trimmed_def s hd_rev last_rev)
qed


lemma word_not_space: "is_word c \<Longrightarrow> \<not> is_space c"
  by (auto simp: is_word_def is_space_def Let_def)

lemma special_chars:
  "\<not> is_word CHR ''[''" "\<not> is_word CHR '']''" "\<not> is_word CHR ''*''" "\<not> is_word CHR '':''"
  "\<not> is_word (CHR 0x0A)" "\<not> is_word CHR ''.''" "\<not> is_word CHR ''!''" "\<not> is_word CHR ''?''"
  "\<not> is_space CHR ''[''" "\<not> is_space CHR '']''" "\<not> is_space CHR ''*''" "\<not> is_space CHR '':''"
  "is_space (CHR 0x0A)" "is_space CHR '' ''"
  "\<not> is_space CHR ''.''" "\<not> is_space CHR ''!''" "\<not> is_space CHR ''?''"
  by (simp_all add: is_word_def is_space_def)

lemma mark_not_space: "is_mark c \<Longrightarrow> \<not> is_space c"
  by (auto simp: is_mark_def special_chars)



lemma collapse_ws_from_last:
  "s \<noteq> [] \<Longrightarrow> \<not> is_space (last s) \<Longrightarrow>
   collapse_ws_from b s \<noteq> [] \<and> last (collapse_ws_from b s) = last s"
proof (induction s arbitrary: b)
  case Nil
  then show ?case by simp
next
  case (Cons c cs)
  show ?case
  proof (cases "cs = []")
    case True
    then show ?thesis using Cons.prems by simp
  next
    case False
    then have "\<And>b. collapse_ws_from b cs \<noteq> [] \<and> last (collapse_ws_from b cs) = last cs"
      using Cons by simp
    then show ?thesis using False by simp
  qed
qed

lemma collapse_ws_trimmed: "trimmed s \<Longrightarrow> trimmed (collapse_ws s)"
proof -
  assume t: "trimmed s"
  then obtain c cs where s: "s = c # cs" and c: "\<not> is_space c"
    by (cases s) (auto simp: trimmed_def)
  have "collapse_ws s \<noteq> [] \<and> last (collapse_ws s) = last s"
    unfolding collapse_ws_def using t by (intro collapse_ws_from_last) (auto simp: trimmed_def)
  moreover have "hd (collapse_ws s) = c"
    by (simp add: collapse_ws_def s c)
  ultimately show ?thesis using t c by (simp add: trimmed_def)
qed

lemma collapse_ws_from_spaced:
  "spaced (collapse_ws_from False s)"
  "spaced (CHR '' '' # collapse_ws_from True s)"
proof (induction s)
  case Nil
  {
    case 1
    show ?case by simp
  next
    case 2
    show ?case by simp
  }
next
  case (Cons c cs)
  {
    case 1
    show ?case
    proof (cases "is_space c")
      case True
      then show ?thesis using Cons
        by (cases cs) (auto simp: special_chars)
    next
      case False
      then show ?thesis using Cons(1)
        by (cases "collapse_ws_from False cs") auto
    qed
  next
    case 2
    show ?case
    proof (cases "is_space c")
      case True
      then show ?thesis using Cons(2) by simp
    next
      case False
      then show ?thesis using Cons(1)
        by (cases "collapse_ws_from False cs") auto
    qed
  }
qed

lemma collapse_ws_spaced_id: "spaced s \<Longrightarrow> collapse_ws_from False s = s"
  by (induction s rule: spaced.induct) auto

lemma clean_text_normal:
  "clean_text t = [] \<or> (trimmed (clean_text t) \<and> spaced (clean_text t))"
proof (cases "strip (cue_sub t) = []")
  case True
  then show ?thesis by (simp add: clean_text_def collapse_ws_def)
next
  case False
  then have "trimmed (strip (cue_sub t))" by (rule trimmed_strip)
  then have "trimmed (clean_text t)"
    unfolding clean_text_def by (rule collapse_ws_trimmed)
  moreover have "spaced (clean_text t)"
    unfolding clean_text_def collapse_ws_def by (rule collapse_ws_from_spaced)
  ultimately show ?thesis by simp
qed

lemma cons_head_nonempty: "cons_head c ps \<noteq> []"
  by (cases ps) simp_all

lemma split_sentences_from_nonempty: "split_sentences_from st t \<noteq> []"
  by (induction t arbitrary: st) (simp_all add: cons_head_nonempty)









lemma takeWhile_stop: "\<not> P x \<Longrightarrow> takeWhile P (xs @ x # ys) = takeWhile P xs"
  by (induction xs) simp_all

lemma dropWhile_stop: "\<not> P x \<Longrightarrow> dropWhile P (xs @ x # ys) = dropWhile P xs @ x # ys"
  by (induction xs) simp_all

lemma boundary_free_tl: "boundary_free (c # cs) \<Longrightarrow> boundary_free cs"
  by (cases cs) simp_all

lemma split_sentences_from_whole:
  "boundary_free p \<Longrightarrow> p = [] \<or> \<not> is_space (hd p) \<or> st = Plain \<Longrightarrow>
   split_sentences_from st p = [p]"
proof (induction p arbitrary: st)
  case Nil
  then show ?case by simp
next
  case (Cons c cs)
  define st' where "st' = (if is_mark c then After_mark else Plain)"
  have c: "\<not> (is_space c \<and> st = After_mark)" "\<not> (is_space c \<and> st = In_gap)"
    using Cons.prems(2) by auto
  have step: "split_sentences_from st (c # cs) = cons_head c (split_sentences_from st' cs)"
    using c by (auto simp: st'_def)
  have "cs = [] \<or> \<not> is_space (hd cs) \<or> st' = Plain"
    using Cons.prems(1) by (cases cs) (auto simp: st'_def)
  then have "split_sentences_from st' cs = [cs]"
    by (intro Cons.IH boundary_free_tl [OF Cons.prems(1)])
  then show ?case unfolding step by simp
qed

lemma cons_head_append: "a \<noteq> [] \<Longrightarrow> cons_head c (a @ b) = cons_head c a @ b"
  by (cases a) simp_all

lemma split_sentences_from_after_mark:
  "x \<noteq> [] \<Longrightarrow> is_mark (last x) \<Longrightarrow>
   split_sentences_from st (x @ CHR '' '' # y) =
     split_sentences_from st x @ split_sentences_from In_gap y"
proof (induction x arbitrary: st)
  case Nil
  then show ?case by simp
next
  case (Cons c cs)
  show ?case
  proof (cases "cs = []")
    case True
    then have m: "is_mark c" using Cons.prems(2) by simp
    then have "\<not> is_space c" by (rule mark_not_space)
    then show ?thesis using True m by (simp add: special_chars)
  next
    case False
    have ih: "split_sentences_from st' (cs @ CHR '' '' # y) =
        split_sentences_from st' cs @ split_sentences_from In_gap y" for st'
      by (rule Cons.IH [OF False]) (use Cons.prems(2) False in simp)
    show ?thesis
      by (simp add: ih cons_head_append split_sentences_from_nonempty)
  qed
qed

lemma split_sentences_from_first:
  "st \<noteq> In_gap \<Longrightarrow>
   hd (split_sentences_from st t) = [] \<or>
   (t \<noteq> [] \<and> hd (hd (split_sentences_from st t)) = hd t)"
proof (cases t)
  case Nil
  then show ?thesis by simp
next
  case (Cons c cs)
  assume st: "st \<noteq> In_gap"
  obtain p ps where pp: "split_sentences_from (if is_mark c then After_mark else Plain) cs = p # ps"
    using split_sentences_from_nonempty
    by (cases "split_sentences_from (if is_mark c then After_mark else Plain) cs") auto
  show ?thesis unfolding Cons using st pp by simp
qed

lemma split_sentences_from_spaced:
  "spaced t \<Longrightarrow> \<forall>p \<in> set (split_sentences_from st t). spaced p"
proof (induction t arbitrary: st)
  case Nil
  then show ?case by simp
next
  case (Cons c cs)
  have sp: "spaced cs" using Cons.prems by (cases cs) simp_all
  have ih: "\<forall>p \<in> set (split_sentences_from st' cs). spaced p" for st'
    by (rule Cons.IH [OF sp])
  define st' where "st' = (if is_mark c then After_mark else Plain)"
  obtain p ps where pp: "split_sentences_from st' cs = p # ps"
    using split_sentences_from_nonempty by (cases "split_sentences_from st' cs") auto
  have st': "st' \<noteq> In_gap" by (simp add: st'_def)
  have first: "spaced (c # p)"
  proof (cases p)
    case Nil
    then show ?thesis by simp
  next
    case (Cons d p')
    have "hd (hd (split_sentences_from st' cs)) = hd cs" "cs \<noteq> []"
      using split_sentences_from_first [OF st', of cs] pp Cons by simp_all
    then have "d = hd cs" using pp Cons by simp
    then have "\<not> (is_space c \<and> is_space d)"
      using Cons.prems \<open>cs \<noteq> []\<close> by (cases cs) simp_all
    moreover have "spaced p" using ih [of st'] pp by simp
    ultimately show ?thesis using Cons by simp
  qed
  have rest: "\<forall>q \<in> set ps. spaced q" using ih [of st'] pp by simp
  consider (start) "is_space c" "st = After_mark" | (gap) "is_space c" "st = In_gap"
    | (char) "\<not> (is_space c \<and> st = After_mark)" "\<not> (is_space c \<and> st = In_gap)"
    by blast
  then show ?case
  proof cases
    case start
    then show ?thesis using ih [of In_gap] by simp
  next
    case gap
    then show ?thesis using ih [of In_gap] by simp
  next
    case char
    have "split_sentences_from st (c # cs) = (c # p) # ps"
      using char pp unfolding st'_def by auto
    then show ?thesis using first rest by simp
  qed
qed

lemma boundary_free_Cons:
  "boundary_free (c # p) \<longleftrightarrow> (p = [] \<or> \<not> (is_mark c \<and> is_space (hd p))) \<and> boundary_free p"
  by (cases p) auto

lemma split_sentences_from_pieces:
  assumes "t = [] \<or> \<not> is_space (last t)"
  shows "boundary_free (hd (split_sentences_from st t))
       \<and> (hd (split_sentences_from st t) \<noteq> [] \<longrightarrow>
            \<not> is_space (last (hd (split_sentences_from st t))))
       \<and> (st \<noteq> Plain \<longrightarrow> hd (split_sentences_from st t) = [] \<or>
            \<not> is_space (hd (hd (split_sentences_from st t))))
       \<and> (st \<noteq> After_mark \<and> t \<noteq> [] \<longrightarrow> hd (split_sentences_from st t) \<noteq> [])
       \<and> (\<forall>q \<in> set (tl (split_sentences_from st t)). trimmed q \<and> boundary_free q)
       \<and> (\<forall>q \<in> set (butlast (split_sentences_from st t)). q = [] \<or> is_mark (last q))"
  using assms
proof (induction t arbitrary: st)
  case Nil
  show ?case by simp
next
  case (Cons c cs)
  have pr: "cs = [] \<or> \<not> is_space (last cs)"
    using Cons.prems by (cases "cs = []") simp_all
  note ih = Cons.IH [OF pr]
  consider (start) "is_space c" "st = After_mark" | (gap) "is_space c" "st = In_gap"
    | (char) "\<not> (is_space c \<and> st = After_mark)" "\<not> (is_space c \<and> st = In_gap)"
    by blast
  then show ?case
  proof cases
    case start
    have ne: "cs \<noteq> []" using Cons.prems start(1) by auto
    define S' where "S' = split_sentences_from In_gap cs"
    have S: "split_sentences_from st (c # cs) = [] # S'"
      using start by (simp add: S'_def)
    have S'ne: "S' \<noteq> []" unfolding S'_def by (rule split_sentences_from_nonempty)
    note i = ih [of In_gap, folded S'_def]
    have h: "hd S' \<noteq> []" using i ne by simp
    have "trimmed (hd S') \<and> boundary_free (hd S')"
      using i h by (simp add: trimmed_def)
    moreover have "S' = hd S' # tl S'" using S'ne by simp
    ultimately have all: "\<forall>q \<in> set S'. trimmed q \<and> boundary_free q"
      using i by (metis set_ConsD)
    have bl: "butlast ([] # S') = [] # butlast S'" using S'ne by simp
    show ?thesis unfolding S using all i start(2) by (simp add: bl del: butlast.simps)
  next
    case gap
    have ne: "cs \<noteq> []" using Cons.prems gap(1) by auto
    have S: "split_sentences_from st (c # cs) = split_sentences_from In_gap cs"
      using gap by simp
    show ?thesis unfolding S using ih [of In_gap] ne gap(2) by blast
  next
    case char
    define st' where "st' = (if is_mark c then After_mark else Plain)"
    obtain p ps where pp: "split_sentences_from st' cs = p # ps"
      using split_sentences_from_nonempty by (cases "split_sentences_from st' cs") auto
    have S: "split_sentences_from st (c # cs) = (c # p) # ps"
      using char pp unfolding st'_def by auto
    note i = ih [of st', unfolded pp list.sel]
    have p_empty: "p = [] \<Longrightarrow> cs \<noteq> [] \<Longrightarrow> is_mark c"
      using i unfolding st'_def by (auto split: if_splits)
    have 1: "boundary_free (c # p)"
      unfolding boundary_free_Cons using i unfolding st'_def by (auto split: if_splits)
    have 2: "\<not> is_space (last (c # p))"
    proof (cases "p = []")
      case False
      then show ?thesis using i by simp
    next
      case True
      show ?thesis
      proof (cases "cs = []")
        case True
        then show ?thesis using Cons.prems \<open>p = []\<close> by simp
      next
        case False
        then have "is_mark c" using p_empty True by simp
        then show ?thesis using True mark_not_space by simp
      qed
    qed
    have 3: "st \<noteq> Plain \<longrightarrow> \<not> is_space c"
      using char by (cases st) auto
    have 6: "\<forall>q \<in> set (butlast ((c # p) # ps)). q = [] \<or> is_mark (last q)"
    proof (cases "ps = []")
      case True
      then show ?thesis by simp
    next
      case False
      then have b: "butlast ((c # p) # ps) = (c # p) # butlast ps"
        "butlast (p # ps) = p # butlast ps" by simp_all
      have csne: "cs \<noteq> []" using pp False by (cases cs) auto
      have "is_mark (last (c # p))"
      proof (cases "p = []")
        case True
        then show ?thesis using p_empty csne by simp
      next
        case False
        then show ?thesis using i unfolding b by simp
      qed
      then show ?thesis using i unfolding b by simp
    qed
    show ?thesis unfolding S list.sel using 1 2 3 6 i by simp
  qed
qed

lemma split_sentences_trimmed:
  assumes "trimmed t"
  shows "\<forall>q \<in> set (split_sentences t). trimmed q \<and> boundary_free q"
    and "\<forall>q \<in> set (butlast (split_sentences t)). is_mark (last q)"
proof -
  define S where "S = split_sentences_from Plain t"
  obtain c cs where t: "t = c # cs" and c: "\<not> is_space c"
    using assms by (cases t) (auto simp: trimmed_def)
  have pr: "t = [] \<or> \<not> is_space (last t)" using assms by (simp add: trimmed_def)
  note i = split_sentences_from_pieces [OF pr, of Plain, folded S_def]
  obtain p ps where pp: "split_sentences_from (if is_mark c then After_mark else Plain) cs = p # ps"
    using split_sentences_from_nonempty
    by (cases "split_sentences_from (if is_mark c then After_mark else Plain) cs") auto
  have S: "S = (c # p) # ps" unfolding S_def t using pp by simp
  have hdS: "trimmed (hd S) \<and> boundary_free (hd S)"
    using i c unfolding S by (simp add: trimmed_def)
  then have all: "\<forall>q \<in> set S. trimmed q \<and> boundary_free q"
    using i unfolding S by simp
  show "\<forall>q \<in> set (split_sentences t). trimmed q \<and> boundary_free q"
    unfolding split_sentences_def S_def [symmetric] by (rule all)
  have "\<forall>q \<in> set (butlast S). q \<noteq> []"
    using all by (auto simp: trimmed_def dest: in_set_butlastD)
  then show "\<forall>q \<in> set (butlast (split_sentences t)). is_mark (last q)"
    unfolding split_sentences_def S_def [symmetric] using i by blast
qed


section \<open>Properties of the chunking engine\<close>

lemma indexed_from_Nil: "indexed_from start []"
  by (simp add: indexed_from_def)

lemma indexed_from_snoc:
  "indexed_from start chunks \<Longrightarrow>
   indexed_from start (chunks @ [make_chunk ct t (start + int (length chunks)) md])"
  by (simp add: indexed_from_def make_chunk_def)

lemma indexed_from_append:
  assumes "indexed_from 0 xs" "indexed_from (int (length xs)) ys"
  shows "indexed_from 0 (xs @ ys)"
proof -
  have a: "[0..<length xs + length ys] = [0..<length xs] @ [length xs..<length xs + length ys]"
    by (rule upt_add_eq_append) simp
  have "[length xs..<length ys + length xs] = map (\<lambda>i. i + length xs) [0..<length ys]"
    by (rule map_add_upt [symmetric])
  then have b: "map int [length xs..<length xs + length ys] =
      map (\<lambda>i. int (length xs) + int i) [0..<length ys]"
    by (simp only: add.commute [of "length xs" "length ys"] map_map o_def of_nat_add
        add.commute [of "int (length xs)"])
  have "map c_index (xs @ ys) = map int [0..<length xs] @ map int [length xs..<length xs + length ys]"
    using assms unfolding indexed_from_def b by simp
  then show ?thesis
    unfolding indexed_from_def length_append a map_append by simp
qed

lemma split_large_loop_indexed:
  "indexed_from start chunks \<Longrightarrow>
   indexed_from start
     (fst (split_large_loop ct aw csz ov start md chunks cur toks sents))"
proof (induction sents arbitrary: chunks cur toks)
  case Nil
  then show ?case by simp
next
  case (Cons sent rest)
  show ?case
  proof -
    define flush where "flush = (toks + int (ct sent) > csz \<and> strip cur \<noteq> [])"
    define chunks1 where "chunks1 =
      (if flush then chunks @ [make_chunk ct (strip cur) (start + int (length chunks)) md]
       else chunks)"
    have c1: "indexed_from start chunks1"
      by (simp add: chunks1_def Cons.prems indexed_from_snoc)
    show ?thesis
      unfolding split_large_loop.simps Let_def flush_def [symmetric] chunks1_def [symmetric]
      by (rule Cons.IH [OF c1])
  qed
qed

lemma split_large_paragraph_indexed:
  "indexed_from start (split_large_paragraph ct aw t csz ov start md)"
proof -
  obtain chunks cur where
    l: "split_large_loop ct aw csz ov start md [] [] 0 (split_sentences t) = (chunks, cur)"
    by (cases "split_large_loop ct aw csz ov start md [] [] 0 (split_sentences t)")
  have "indexed_from start chunks"
    using split_large_loop_indexed [OF indexed_from_Nil, of start ct aw csz ov md "[]" 0
        "split_sentences t"] l by simp
  then show ?thesis
    by (simp add: split_large_paragraph_def l indexed_from_snoc)
qed

lemma chunk_loop_indexed:
  "indexed_from 0 chunks \<Longrightarrow>
   indexed_from 0 (fst (chunk_loop ct aw csz ov md chunks cur toks paras))"
proof (induction paras arbitrary: chunks cur toks)
  case Nil
  then show ?case by simp
next
  case (Cons para rest)
  have flushed: "indexed_from 0 (chunks @ [make_chunk ct t (int (length chunks)) md])" for t
    using indexed_from_snoc [OF Cons.prems, of ct t md] by simp
  show ?case
  proof (cases "int (ct para) > csz")
    case True
    define chunks1 where "chunks1 =
      (if strip cur \<noteq> [] then chunks @ [make_chunk ct (strip cur) (int (length chunks)) md]
       else chunks)"
    have c1: "indexed_from 0 chunks1"
      by (simp add: chunks1_def flushed Cons.prems)
    have c2: "indexed_from 0
        (chunks1 @ split_large_paragraph ct aw para csz ov (int (length chunks1)) md)"
      by (rule indexed_from_append [OF c1 split_large_paragraph_indexed])
    show ?thesis
      using True unfolding chunk_loop.simps Let_def chunks1_def [symmetric]
      by (simp add: Cons.IH [OF c2])
  next
    case False
    define flush where "flush = (toks + int (ct para) > csz \<and> strip cur \<noteq> [])"
    define chunks1 where "chunks1 =
      (if flush then chunks @ [make_chunk ct (strip cur) (int (length chunks)) md]
       else chunks)"
    have c1: "indexed_from 0 chunks1"
      by (simp add: chunks1_def flushed Cons.prems)
    show ?thesis
      using False unfolding chunk_loop.simps Let_def flush_def [symmetric]
        chunks1_def [symmetric]
      by (simp add: Cons.IH [OF c1])
  qed
qed

text \<open>
  Claim C5. For every text, size, overlap and metadata (and whatever the token counter
  and the word estimate compute), the indices of the chunks returned by
  \<open>chunk_text\<close> are 0, 1, 2, ... in the order of the list, the chunks of a split
  oversized paragraph included.
\<close>

theorem chunk_text_indices:
  "map c_index (chunk_text ct aw t csz ov md) =
     map int [0..<length (chunk_text ct aw t csz ov md)]"
proof -
  obtain chunks cur where
    l: "chunk_loop ct aw csz ov md [] [] 0 (split_paragraphs t) = (chunks, cur)"
    by (cases "chunk_loop ct aw csz ov md [] [] 0 (split_paragraphs t)")
  have c: "indexed_from 0 chunks"
    using chunk_loop_indexed [OF indexed_from_Nil, of ct aw csz ov md "[]" 0
        "split_paragraphs t"] l by simp
  have "indexed_from 0 (chunk_text ct aw t csz ov md)"
    using c indexed_from_snoc [OF c, of ct "strip cur" md]
    by (simp add: chunk_text_def l)
  then show ?thesis
    by (simp add: indexed_from_def)
qed









section \<open>Properties of the dialogue segmentation\<close>

text \<open>
  Claim C4. For the turn body \<open>[pause] hello [excited] world\<close>, both parsers give one
  segment with the cues \<open>pause\<close>, \<open>excited\<close> in this order and the text \<open>hello world\<close>:
  the markers are removed and the double space left between the words is collapsed.
\<close>

theorem cue_extraction_example:
  "parse_script ''HOST_A: [pause] hello [excited] world'' =
     [\<lparr>speaker = HOST_A, s_text = ''hello world'', s_index = 0,
       cues = [''pause'', ''excited'']\<rparr>]
   \<and> fst (parse_dialogue ''Mike: [pause] hello [excited] world'' None) =
     [\<lparr>speaker = HOST_A, s_text = ''hello world'', s_index = 0,
       cues = [''pause'', ''excited'']\<rparr>]"
  by code_simp









lemma append_subs_eq:
  "append_subs segs spk cs j parts =
     segs @ map (\<lambda>i. \<lparr>speaker = spk, s_text = parts ! i,
                       s_index = int (length segs) + int i,
                       cues = (if j + i = 0 then cs else [])\<rparr>) [0..<length parts]"
proof (induction parts arbitrary: segs j)
  case Nil
  then show ?case by simp
next
  case (Cons sub rest)
  have shift: "[0..<length (sub # rest)] = 0 # map Suc [0..<length rest]"
    by (simp add: upt_conv_Cons map_Suc_upt del: upt_Suc)
  show ?case
    unfolding append_subs.simps Cons.IH shift
    by (simp add: o_def)
qed

lemma cue_scan_no_bracket:
  "CHR ''['' \<notin> set s \<Longrightarrow> cue_scan (s @ r) = map Ch s @ cue_scan r"
  by (induction s) auto






lemma turns_of_chars: "turns_of (map Inr s @ items) = (s @ fst (turns_of items), snd (turns_of items))"
  by (induction s) (auto split: prod.splits)

lemma match_host_label_line:
  "match_host_label (speaker_value spk @ '': '' @ r) = Some (speaker_value spk, 7)"
  by (cases spk) (simp_all add: match_host_label_def special_chars)



section \<open>Properties of the cue pattern\<close>

lemma match_cue_unfold:
  "match_cue cs =
     (if takeWhile is_word cs = [] \<or> dropWhile is_word cs = [] then None
      else if hd (dropWhile is_word cs) = CHR '']''
        then Some (takeWhile is_word cs, length (takeWhile is_word cs) + 1)
      else if takeWhile is_space (dropWhile is_word cs) \<noteq> [] \<and>
              takeWhile is_word (dropWhile is_space (dropWhile is_word cs)) \<noteq> [] \<and>
              dropWhile is_word (dropWhile is_space (dropWhile is_word cs)) \<noteq> [] \<and>
              hd (dropWhile is_word (dropWhile is_space (dropWhile is_word cs))) = CHR '']''
        then Some (takeWhile is_word cs @ takeWhile is_space (dropWhile is_word cs) @
                     takeWhile is_word (dropWhile is_space (dropWhile is_word cs)),
                   length (takeWhile is_word cs) +
                   length (takeWhile is_space (dropWhile is_word cs)) +
                   length (takeWhile is_word (dropWhile is_space (dropWhile is_word cs))) + 1)
      else None)"
proof (cases "dropWhile is_word cs")
  case Nil
  show ?thesis
    unfolding match_cue_def Let_def Nil list.case by simp
next
  case (Cons c r2)
  show ?thesis
    unfolding match_cue_def Let_def Cons list.case by simp
qed

lemma hd_append_stop: "hd (r @ x # y) = z \<longleftrightarrow> (if r = [] then x = z else hd r = z)"
  by (cases r) simp_all

lemma match_cue_append_bracket: "match_cue (cs @ CHR ''['' # y) = match_cue cs"
  unfolding match_cue_unfold [of "cs @ CHR ''['' # y"] match_cue_unfold [of cs]
  by (simp add: takeWhile_stop dropWhile_stop special_chars hd_append_stop)

lemma match_cue_length:
  assumes "match_cue cs = Some (g, n)"
  shows "n \<le> length cs"
proof -
  define r1 where "r1 = dropWhile is_word cs"
  define r3 where "r3 = dropWhile is_space r1"
  define r4 where "r4 = dropWhile is_word r3"
  have l1: "length cs = length (takeWhile is_word cs) + length r1"
    unfolding r1_def by (metis length_append takeWhile_dropWhile_id)
  have l2: "length r1 = length (takeWhile is_space r1) + length r3"
    unfolding r3_def by (metis length_append takeWhile_dropWhile_id)
  have l3: "length r3 = length (takeWhile is_word r3) + length r4"
    unfolding r4_def by (metis length_append takeWhile_dropWhile_id)
  have ne: "x \<noteq> [] \<Longrightarrow> 1 \<le> length x" for x :: string
    by (cases x) simp_all
  show ?thesis
    using assms l1 l2 l3 ne [of r1] ne [of r4]
    unfolding match_cue_unfold [of cs] r1_def [symmetric] r3_def [symmetric] r4_def [symmetric]
    by (auto split: if_splits)
qed

lemma match_cue_closing:
  assumes "CHR '']'' \<notin> set inner"
  shows "match_cue (inner @ CHR '']'' # post) =
           (if is_cue_phrase inner then Some (inner, length inner + 1) else None)"
proof -
  define w1 where "w1 = takeWhile is_word inner"
  define r1 where "r1 = dropWhile is_word inner"
  define ws where "ws = takeWhile is_space r1"
  define r3 where "r3 = dropWhile is_space r1"
  define w2 where "w2 = takeWhile is_word r3"
  define r4 where "r4 = dropWhile is_word r3"
  have i1: "inner = w1 @ r1" by (simp add: w1_def r1_def)
  have i2: "r1 = ws @ r3" by (simp add: ws_def r3_def)
  have i3: "r3 = w2 @ r4" by (simp add: w2_def r4_def)
  have nb: "x \<in> set r1 \<Longrightarrow> x \<noteq> CHR '']''" "x \<in> set r4 \<Longrightarrow> x \<noteq> CHR '']''" for x
    using assms i1 i2 i3 by auto
  have h1: "r1 \<noteq> [] \<Longrightarrow> hd r1 \<noteq> CHR '']''" using nb(1) [of "hd r1"] by simp
  have h4: "r4 \<noteq> [] \<Longrightarrow> hd r4 \<noteq> CHR '']''" using nb(2) [of "hd r4"] by simp
  have all: "r4 = [] \<longleftrightarrow> (\<forall>c \<in> set r3. is_word c)"
    unfolding r4_def by (simp only: dropWhile_eq_Nil_conv)
  have w2r3: "r4 = [] \<Longrightarrow> w2 = r3" using i3 by simp
  have phrase: "is_cue_phrase inner =
      (w1 \<noteq> [] \<and> (r1 = [] \<or> (ws \<noteq> [] \<and> r3 \<noteq> [] \<and> r4 = [])))"
    unfolding is_cue_phrase_def Let_def w1_def [symmetric] r1_def [symmetric]
      ws_def [symmetric] r3_def [symmetric] all by simp
  have lhs: "match_cue (inner @ CHR '']'' # post) =
      (if w1 = [] then None
       else if r1 = [] then Some (w1, length w1 + 1)
       else if ws \<noteq> [] \<and> w2 \<noteq> [] \<and> r4 = [] then Some (w1 @ ws @ w2,
          length w1 + length ws + length w2 + 1)
       else None)"
    unfolding match_cue_unfold [of "inner @ CHR '']'' # post"]
    using h1 h4
    by (simp add: takeWhile_stop dropWhile_stop special_chars hd_append_stop
        w1_def [symmetric] r1_def [symmetric] ws_def [symmetric] r3_def [symmetric]
        w2_def [symmetric] r4_def [symmetric])
  show ?thesis
  proof (cases "r1 = []")
    case True
    then have "inner = w1" using i1 by simp
    then show ?thesis unfolding lhs phrase using True by simp
  next
    case False
    show ?thesis
    proof (cases "r4 = []")
      case True
      have "inner = w1 @ ws @ w2" using i1 i2 i3 True by simp
      moreover have "length inner = length w1 + length ws + length w2"
        using calculation by (metis length_append add.assoc)
      ultimately show ?thesis
        unfolding lhs phrase using False True w2r3 [OF True] by auto
    next
      case r4: False
      then show ?thesis unfolding lhs phrase using False by simp
    qed
  qed
qed

lemma match_cue_phrase:
  assumes "match_cue cs = Some (g, n)"
  shows "is_cue_phrase g"
proof -
  define w1 where "w1 = takeWhile is_word cs"
  define r1 where "r1 = dropWhile is_word cs"
  define ws where "ws = takeWhile is_space r1"
  define r3 where "r3 = dropWhile is_space r1"
  define w2 where "w2 = takeWhile is_word r3"
  have aw1: "\<forall>c \<in> set w1. is_word c" unfolding w1_def by (meson set_takeWhileD)
  have aw2: "\<forall>c \<in> set w2. is_word c" unfolding w2_def by (meson set_takeWhileD)
  have aws: "\<forall>c \<in> set ws. is_space c" unfolding ws_def by (meson set_takeWhileD)
  have tw: "takeWhile is_word w1 = w1" and dw: "dropWhile is_word w1 = []"
    using aw1 by simp_all
  have one: "w1 \<noteq> [] \<Longrightarrow> is_cue_phrase w1"
    unfolding is_cue_phrase_def Let_def tw dw by simp
  have two: "is_cue_phrase (w1 @ ws @ w2)" if ne: "w1 \<noteq> []" "ws \<noteq> []" "w2 \<noteq> []"
  proof -
    obtain a ws' where ws: "ws = a # ws'" using ne(2) by (cases ws) auto
    obtain b w2' where w2: "w2 = b # w2'" using ne(3) by (cases w2) auto
    have a: "\<not> is_word a" using aws ws word_not_space by auto
    have b: "\<not> is_space b" using aw2 w2 word_not_space by auto
    have t1: "takeWhile is_word (w1 @ ws @ w2) = w1"
      unfolding ws append_Cons using takeWhile_stop [of is_word a w1] a aw1 by simp
    have d1: "dropWhile is_word (w1 @ ws @ w2) = ws @ w2"
      unfolding ws append_Cons using dropWhile_stop [of is_word a w1] a aw1 by simp
    have t2: "takeWhile is_space (ws @ w2) = ws"
      unfolding w2 using takeWhile_stop [of is_space b ws] b aws by simp
    have d2: "dropWhile is_space (ws @ w2) = w2"
      unfolding w2 using dropWhile_stop [of is_space b ws] b aws by simp
    show ?thesis
      unfolding is_cue_phrase_def Let_def t1 d1 t2 d2 using ne aw2 by simp
  qed
  show ?thesis
    using assms one two
    unfolding match_cue_unfold [of cs] w1_def [symmetric] r1_def [symmetric]
      ws_def [symmetric] r3_def [symmetric] w2_def [symmetric]
    by (auto split: if_splits)
qed

lemma cue_scan_append_bracket:
  "cue_scan (pre @ CHR ''['' # y) = cue_scan pre @ cue_scan (CHR ''['' # y)"
proof (induction pre rule: cue_scan.induct)
  case 1
  show ?case by simp
next
  case (2 c cs)
  define m where "m = (if c = CHR ''['' then match_cue cs else None)"
  have m': "(if c = CHR ''['' then match_cue (cs @ CHR ''['' # y) else None) = m"
    by (simp add: m_def match_cue_append_bracket)
  show ?case
  proof (cases m)
    case None
    have ih: "cue_scan (cs @ CHR ''['' # y) = cue_scan cs @ cue_scan (CHR ''['' # y)"
      by (rule "2.IH"(1)) (use None in \<open>simp add: m_def\<close>)
    have l: "cue_scan ((c # cs) @ CHR ''['' # y) = Ch c # cue_scan (cs @ CHR ''['' # y)"
      unfolding append_Cons cue_scan.simps m' None by simp
    have r: "cue_scan (c # cs) = Ch c # cue_scan cs"
      unfolding cue_scan.simps m_def [symmetric] None by simp
    show ?thesis unfolding l r ih by simp
  next
    case (Some gn)
    obtain g n where gn: "gn = (g, n)" by (cases gn)
    have mc: "match_cue cs = Some (g, n)"
      using Some gn by (simp add: m_def split: if_splits)
    have n: "n \<le> length cs" by (rule match_cue_length [OF mc])
    have ih: "cue_scan (drop n cs @ CHR ''['' # y) =
        cue_scan (drop n cs) @ cue_scan (CHR ''['' # y)"
      by (rule "2.IH"(2) [of gn g n]) (use Some gn in \<open>simp_all add: m_def\<close>)
    have l: "cue_scan ((c # cs) @ CHR ''['' # y) = Cue g # cue_scan (drop n cs @ CHR ''['' # y)"
      unfolding append_Cons cue_scan.simps m' Some gn using n by simp
    have r: "cue_scan (c # cs) = Cue g # cue_scan (drop n cs)"
      unfolding cue_scan.simps m_def [symmetric] Some gn by simp
    show ?thesis unfolding l r ih by simp
  qed
qed

lemma cue_scan_bracketed:
  assumes "CHR ''['' \<notin> set inner" "CHR '']'' \<notin> set inner" "\<not> is_cue_phrase inner"
  shows "cue_scan (CHR ''['' # inner @ CHR '']'' # post) =
           Ch CHR ''['' # map Ch inner @ Ch CHR '']'' # cue_scan post"
proof -
  have "match_cue (inner @ CHR '']'' # post) = None"
    using match_cue_closing [OF assms(2), of post] assms(3) by simp
  then have "cue_scan (CHR ''['' # inner @ CHR '']'' # post) =
      Ch CHR ''['' # cue_scan (inner @ CHR '']'' # post)"
    by simp
  then show ?thesis
    using cue_scan_no_bracket [OF assms(1), of "CHR '']'' # post"] by simp
qed

lemma cue_scan_around_bracketed:
  assumes "CHR ''['' \<notin> set inner" "CHR '']'' \<notin> set inner" "\<not> is_cue_phrase inner"
  shows "cue_scan (pre @ ''['' @ inner @ '']'' @ post) =
           cue_scan pre @ Ch CHR ''['' # map Ch inner @ Ch CHR '']'' # cue_scan post"
  using cue_scan_append_bracket [of pre "inner @ CHR '']'' # post"]
    cue_scan_bracketed [OF assms, of post]
  by simp

lemma token_char_Ch: "concat (map token_char (map Ch s)) = s"
  by (induction s) simp_all

lemma token_cue_Ch: "concat (map token_cue (map Ch s)) = []"
  by (induction s) simp_all

lemma token_char_Ch_comp: "concat (map (token_char \<circ> Ch) s) = s"
  by (induction s) simp_all

lemma token_cue_Ch_comp: "concat (map (token_cue \<circ> Ch) s) = []"
  by (induction s) simp_all

lemma cue_findall_phrases: "\<forall>g \<in> set (cue_findall t). is_cue_phrase g"
proof (induction t rule: cue_scan.induct)
  case 1
  show ?case by (simp add: cue_findall_def)
next
  case (2 c cs)
  define m where "m = (if c = CHR ''['' then match_cue cs else None)"
  show ?case
  proof (cases m)
    case None
    have "cue_findall (c # cs) = cue_findall cs"
      unfolding cue_findall_def cue_scan.simps m_def [symmetric] None by simp
    moreover have "\<forall>g \<in> set (cue_findall cs). is_cue_phrase g"
      by (rule "2.IH"(1)) (use None in \<open>simp add: m_def\<close>)
    ultimately show ?thesis by simp
  next
    case (Some gn)
    obtain g n where gn: "gn = (g, n)" by (cases gn)
    have mc: "match_cue cs = Some (g, n)"
      using Some gn by (simp add: m_def split: if_splits)
    have "cue_findall (c # cs) = g # cue_findall (drop n cs)"
      unfolding cue_findall_def cue_scan.simps m_def [symmetric] Some gn by simp
    moreover have "\<forall>g \<in> set (cue_findall (drop n cs)). is_cue_phrase g"
      by (rule "2.IH"(2) [of gn g n]) (use Some gn in \<open>simp_all add: m_def\<close>)
    ultimately show ?thesis using match_cue_phrase [OF mc] by simp
  qed
qed

lemma dropWhile_rev_stop:
  "\<not> P x \<Longrightarrow> rev (dropWhile P (rev (ys @ x # zs))) = ys @ x # rev (dropWhile P (rev zs))"
  by (simp add: dropWhile_append3 dropWhile_stop)

lemma strip_around:
  assumes "\<not> is_space a" "\<not> is_space b"
  shows "strip (p @ a # m @ b # q) =
           dropWhile is_space p @ a # m @ b # rev (dropWhile is_space (rev q))"
proof -
  have 1: "dropWhile is_space (p @ a # m @ b # q) = dropWhile is_space p @ a # m @ b # q"
    using assms(1) by (rule dropWhile_stop)
  have 2: "rev (dropWhile is_space (rev ((dropWhile is_space p @ a # m) @ b # q))) =
      (dropWhile is_space p @ a # m) @ b # rev (dropWhile is_space (rev q))"
    using assms(2) by (rule dropWhile_rev_stop)
  show ?thesis unfolding strip_def 1 using 2 by simp
qed

lemma collapse_ws_from_before:
  "\<not> is_space x \<Longrightarrow>
   collapse_ws_from b (p @ x # r) = collapse_ws_from b p @ collapse_ws_from False (x # r)"
proof (induction p arbitrary: b)
  case Nil
  then show ?case by simp
next
  case (Cons c p)
  have h: "(p @ x # r \<noteq> [] \<and> is_space (hd (p @ x # r))) = (p \<noteq> [] \<and> is_space (hd p))"
    using Cons.prems by (cases p) simp_all
  show ?case
    unfolding append_Cons collapse_ws_from.simps h Cons.IH [OF Cons.prems]
    by simp
qed

lemma collapse_ws_from_spaced_prefix:
  "spaced s \<Longrightarrow> \<not> is_space x \<Longrightarrow>
   collapse_ws_from False (s @ x # r) = s @ collapse_ws_from False (x # r)"
proof (induction s rule: spaced.induct)
  case 1
  then show ?case by simp
next
  case (2 c)
  then show ?case by simp
next
  case (3 c d cs)
  then have ih: "collapse_ws_from False ((d # cs) @ x # r) =
      (d # cs) @ collapse_ws_from False (x # r)" by simp
  have "collapse_ws_from False ((c # d # cs) @ x # r) =
      c # collapse_ws_from False ((d # cs) @ x # r)"
    using "3.prems"(1) by simp
  then show ?case unfolding ih by simp
qed

lemma clean_text_around_bracketed:
  assumes "CHR ''['' \<notin> set inner" "CHR '']'' \<notin> set inner" "\<not> is_cue_phrase inner"
  shows "clean_text (pre @ ''['' @ inner @ '']'' @ post) =
           collapse_ws (dropWhile is_space (cue_sub pre)) @ ''['' @ collapse_ws inner @ '']'' @
           collapse_ws (rev (dropWhile is_space (rev (cue_sub post))))"
proof -
  define p where "p = dropWhile is_space (cue_sub pre)"
  define q where "q = rev (dropWhile is_space (rev (cue_sub post)))"
  have sub: "cue_sub (pre @ ''['' @ inner @ '']'' @ post) =
      cue_sub pre @ CHR ''['' # inner @ CHR '']'' # cue_sub post"
    unfolding cue_sub_def cue_scan_around_bracketed [OF assms]
    by (simp add: token_char_Ch_comp)
  have st: "strip (cue_sub pre @ CHR ''['' # inner @ CHR '']'' # cue_sub post) =
      p @ CHR ''['' # inner @ CHR '']'' # q"
    unfolding p_def q_def by (rule strip_around) (simp_all add: special_chars)
  have 1: "collapse_ws_from False (p @ CHR ''['' # inner @ CHR '']'' # q) =
      collapse_ws_from False p @ collapse_ws_from False (CHR ''['' # inner @ CHR '']'' # q)"
    by (rule collapse_ws_from_before) (simp add: special_chars)
  have 2: "collapse_ws_from False (CHR ''['' # inner @ CHR '']'' # q) =
      CHR ''['' # collapse_ws_from False (inner @ CHR '']'' # q)"
    by (simp add: special_chars)
  have 3: "collapse_ws_from False (inner @ CHR '']'' # q) =
      collapse_ws_from False inner @ collapse_ws_from False (CHR '']'' # q)"
    by (rule collapse_ws_from_before) (simp add: special_chars)
  have 4: "collapse_ws_from False (CHR '']'' # q) = CHR '']'' # collapse_ws_from False q"
    by (simp add: special_chars)
  have "clean_text (pre @ ''['' @ inner @ '']'' @ post) =
      collapse_ws_from False (p @ CHR ''['' # inner @ CHR '']'' # q)"
    unfolding clean_text_def sub st collapse_ws_def ..
  also have "\<dots> = collapse_ws_from False p @ CHR ''['' # collapse_ws_from False inner @
      CHR '']'' # collapse_ws_from False q"
    unfolding 1 2 3 4 by simp
  finally show ?thesis
    unfolding p_def q_def collapse_ws_def by simp
qed

text \<open>
  Claim C10, amended. Every cue extracted from any turn body is a word, or two words
  separated by whitespace. A bracketed text in a turn body that is not of this form and
  has no bracket inside adds nothing to the cue list, which holds the cues of what
  stands before and after it, and it stays in the cleaned body between its brackets
  with every run of two or more whitespace characters collapsed to one space, like
  anywhere else in the body: so it stays as it is written when it has no such run. The
  cleaned body is the emitted text when the turn is not split, that is when it has at
  most 500 characters; a longer cleaned body is emitted in the parts that the sentence
  splitter makes of it, the first with the same cue list.
\<close>

theorem bracketed_text_kept:
  "(\<forall>g \<in> set (cue_findall t). is_cue_phrase g)
   \<and> (CHR ''['' \<notin> set inner \<and> CHR '']'' \<notin> set inner \<and> \<not> is_cue_phrase inner \<longrightarrow>
        cue_findall (pre @ ''['' @ inner @ '']'' @ post) = cue_findall pre @ cue_findall post
      \<and> (\<exists>a b. clean_text (pre @ ''['' @ inner @ '']'' @ post) =
                  a @ ''['' @ collapse_ws inner @ '']'' @ b)
      \<and> (spaced inner \<longrightarrow> collapse_ws inner = inner)
      \<and> (length (clean_text (pre @ ''['' @ inner @ '']'' @ post)) \<le> MAX_SEGMENT_CHARS \<longrightarrow>
           append_turn segs spk (pre @ ''['' @ inner @ '']'' @ post) =
             segs @ [\<lparr>speaker = spk,
                       s_text = clean_text (pre @ ''['' @ inner @ '']'' @ post),
                       s_index = int (length segs),
                       cues = cue_findall pre @ cue_findall post\<rparr>])
      \<and> (length (clean_text (pre @ ''['' @ inner @ '']'' @ post)) > MAX_SEGMENT_CHARS \<longrightarrow>
           append_turn segs spk (pre @ ''['' @ inner @ '']'' @ post) =
             segs @ map (\<lambda>i. \<lparr>speaker = spk,
                               s_text = split_long_segment
                                 (clean_text (pre @ ''['' @ inner @ '']'' @ post)) ! i,
                               s_index = int (length segs) + int i,
                               cues = (if i = 0 then cue_findall pre @ cue_findall post
                                       else [])\<rparr>)
                      [0..<length (split_long_segment
                                    (clean_text (pre @ ''['' @ inner @ '']'' @ post)))]))"
proof -
  have phrases: "\<forall>g \<in> set (cue_findall t). is_cue_phrase g"
    by (rule cue_findall_phrases)
  have rest: "cue_findall (pre @ ''['' @ inner @ '']'' @ post) = cue_findall pre @ cue_findall post
      \<and> (\<exists>a b. clean_text (pre @ ''['' @ inner @ '']'' @ post) =
                  a @ ''['' @ collapse_ws inner @ '']'' @ b)
      \<and> (spaced inner \<longrightarrow> collapse_ws inner = inner)
      \<and> (length (clean_text (pre @ ''['' @ inner @ '']'' @ post)) \<le> MAX_SEGMENT_CHARS \<longrightarrow>
           append_turn segs spk (pre @ ''['' @ inner @ '']'' @ post) =
             segs @ [\<lparr>speaker = spk,
                       s_text = clean_text (pre @ ''['' @ inner @ '']'' @ post),
                       s_index = int (length segs),
                       cues = cue_findall pre @ cue_findall post\<rparr>])
      \<and> (length (clean_text (pre @ ''['' @ inner @ '']'' @ post)) > MAX_SEGMENT_CHARS \<longrightarrow>
           append_turn segs spk (pre @ ''['' @ inner @ '']'' @ post) =
             segs @ map (\<lambda>i. \<lparr>speaker = spk,
                               s_text = split_long_segment
                                 (clean_text (pre @ ''['' @ inner @ '']'' @ post)) ! i,
                               s_index = int (length segs) + int i,
                               cues = (if i = 0 then cue_findall pre @ cue_findall post
                                       else [])\<rparr>)
                      [0..<length (split_long_segment
                                    (clean_text (pre @ ''['' @ inner @ '']'' @ post)))])"
    if h: "CHR ''['' \<notin> set inner" "CHR '']'' \<notin> set inner" "\<not> is_cue_phrase inner"
  proof -
    define body where "body = pre @ ''['' @ inner @ '']'' @ post"
    have found: "cue_findall body = cue_findall pre @ cue_findall post"
      unfolding body_def cue_findall_def cue_scan_around_bracketed [OF h]
      by (simp add: token_cue_Ch_comp)
    have clean: "clean_text body =
        collapse_ws (dropWhile is_space (cue_sub pre)) @ ''['' @ collapse_ws inner @ '']'' @
        collapse_ws (rev (dropWhile is_space (rev (cue_sub post))))"
      unfolding body_def by (rule clean_text_around_bracketed [OF h])
    then have kept: "\<exists>a b. clean_text body = a @ ''['' @ collapse_ws inner @ '']'' @ b"
      by blast
    have same: "spaced inner \<longrightarrow> collapse_ws inner = inner"
      by (simp add: collapse_ws_def collapse_ws_spaced_id)
    have ne: "clean_text body \<noteq> []" unfolding clean by simp
    have emit: "append_turn segs spk body =
        segs @ [\<lparr>speaker = spk, s_text = clean_text body, s_index = int (length segs),
                  cues = cue_findall pre @ cue_findall post\<rparr>]"
      if "length (clean_text body) \<le> MAX_SEGMENT_CHARS"
      using that ne by (simp add: append_turn_def Let_def found)
    have parts: "append_turn segs spk body =
        segs @ map (\<lambda>i. \<lparr>speaker = spk, s_text = split_long_segment (clean_text body) ! i,
                          s_index = int (length segs) + int i,
                          cues = (if i = 0 then cue_findall pre @ cue_findall post else [])\<rparr>)
                 [0..<length (split_long_segment (clean_text body))]"
      if "length (clean_text body) > MAX_SEGMENT_CHARS"
      using that ne by (simp add: append_turn_def Let_def found append_subs_eq)
    show ?thesis
      using found kept same emit parts unfolding body_def by blast
  qed
  show ?thesis using phrases rest by blast
qed

theorem bracketed_text_kept_witness:
  "cue_findall ''[pause] wait [one  two three] ok'' = [''pause'']
   \<and> append_turn [] HOST_A ''[pause] wait [one  two three] ok'' =
       [\<lparr>speaker = HOST_A, s_text = ''wait [one two three] ok'', s_index = 0,
         cues = [''pause'']\<rparr>]"
proof -
  have h: "CHR ''['' \<notin> set ''one  two three'' \<and> CHR '']'' \<notin> set ''one  two three''
      \<and> \<not> is_cue_phrase ''one  two three''"
    by code_simp
  have pre: "cue_findall ''[pause] wait '' = [''pause'']" by code_simp
  have post: "cue_findall '' ok'' = []" by code_simp
  have clean: "clean_text (''[pause] wait '' @ ''['' @ ''one  two three'' @ '']'' @ '' ok'') =
      ''wait [one two three] ok''"
    by code_simp
  have len: "length ''wait [one two three] ok'' \<le> MAX_SEGMENT_CHARS"
    by (simp add: MAX_SEGMENT_CHARS_def)
  show ?thesis
    using bracketed_text_kept [where inner = "''one  two three''" and pre = "''[pause] wait ''"
        and post = "'' ok''" and segs = "[]" and spk = HOST_A and t = "[]"] h
    unfolding clean pre post using len by simp
qed

text \<open>
  Claim C10, as stated, fails: a bracketed phrase of three words with two spaces between
  them is not a cue, and is not emitted as it was written.
\<close>

theorem bracketed_phrase_respaced:
  "\<not> is_cue_phrase ''a  b  c''
   \<and> fst (parse_dialogue ''Mike: [a  b  c] hi'' None) =
     [\<lparr>speaker = HOST_A, s_text = ''[a b c] hi'', s_index = 0, cues = []\<rparr>]"
  by code_simp


section \<open>Serializing and parsing again\<close>

lemma cue_phrase_chars:
  assumes "is_cue_phrase g"
  shows "\<forall>c \<in> set g. is_word c \<or> is_space c"
proof -
  define w1 where "w1 = takeWhile is_word g"
  define r where "r = dropWhile is_word g"
  define ws where "ws = takeWhile is_space r"
  define w2 where "w2 = dropWhile is_space r"
  have g: "g = w1 @ ws @ w2" by (simp add: w1_def r_def ws_def w2_def)
  have a1: "\<forall>c \<in> set w1. is_word c" unfolding w1_def by (meson set_takeWhileD)
  have a2: "\<forall>c \<in> set ws. is_space c" unfolding ws_def by (meson set_takeWhileD)
  have "r = [] \<or> (\<forall>c \<in> set w2. is_word c)"
    using assms unfolding is_cue_phrase_def Let_def r_def [symmetric] w2_def [symmetric]
    by blast
  moreover have "r = [] \<Longrightarrow> w2 = []" by (simp add: w2_def)
  ultimately have a3: "\<forall>c \<in> set w2. is_word c" by auto
  show ?thesis unfolding g using a1 a2 a3 by auto
qed

lemma cue_phrase_no_bracket:
  assumes "is_cue_phrase g"
  shows "CHR '']'' \<notin> set g" "CHR ''['' \<notin> set g"
  using cue_phrase_chars [OF assms] special_chars by blast+

lemma cue_phrase_nonempty: "is_cue_phrase g \<Longrightarrow> g \<noteq> []"
  by (auto simp: is_cue_phrase_def Let_def)

lemma cue_scan_cue:
  assumes "is_cue_phrase g"
  shows "cue_scan (''['' @ g @ '']'' @ rest) = Cue g # cue_scan rest"
proof -
  have m: "match_cue (g @ CHR '']'' # rest) = Some (g, length g + 1)"
    using match_cue_closing [OF cue_phrase_no_bracket(1) [OF assms], of rest] assms by simp
  have "cue_scan (CHR ''['' # g @ CHR '']'' # rest) =
      Cue g # cue_scan (drop (length g + 1) (g @ CHR '']'' # rest))"
    unfolding cue_scan.simps using m by simp
  then show ?thesis by simp
qed

lemma cue_scan_prefix:
  assumes "\<forall>g \<in> set cs. is_cue_phrase g"
  shows "cue_scan (cue_prefix cs @ t) =
           concat (map (\<lambda>g. [Cue g, Ch CHR '' '']) cs) @ cue_scan t"
  using assms
proof (induction cs)
  case Nil
  then show ?case by (simp add: cue_prefix_def)
next
  case (Cons g cs)
  have p: "cue_prefix (g # cs) @ t = ''['' @ g @ '']'' @ (CHR '' '' # cue_prefix cs @ t)"
    by (simp add: cue_prefix_def)
  have "cue_scan (cue_prefix (g # cs) @ t) = Cue g # cue_scan (CHR '' '' # cue_prefix cs @ t)"
    unfolding p by (rule cue_scan_cue) (use Cons.prems in simp)
  also have "\<dots> = Cue g # Ch CHR '' '' # cue_scan (cue_prefix cs @ t)"
    by simp
  finally show ?case using Cons by simp
qed

lemma cue_scan_no_cue: "cue_findall t = [] \<Longrightarrow> cue_scan t = map Ch t"
proof (induction t rule: cue_scan.induct)
  case 1
  show ?case by simp
next
  case (2 c cs)
  define m where "m = (if c = CHR ''['' then match_cue cs else None)"
  show ?case
  proof (cases m)
    case None
    have step: "cue_scan (c # cs) = Ch c # cue_scan cs"
      unfolding cue_scan.simps m_def [symmetric] None by simp
    then have "cue_findall cs = []"
      using "2.prems" by (simp add: cue_findall_def)
    then have "cue_scan cs = map Ch cs"
      by (intro "2.IH"(1)) (use None in \<open>simp_all add: m_def\<close>)
    then show ?thesis unfolding step by simp
  next
    case (Some gn)
    obtain g n where gn: "gn = (g, n)" by (cases gn)
    have "cue_scan (c # cs) = Cue g # cue_scan (drop n cs)"
      unfolding cue_scan.simps m_def [symmetric] Some gn by simp
    then have False using "2.prems" by (simp add: cue_findall_def)
    then show ?thesis ..
  qed
qed

lemma strip_leading_spaces:
  "\<forall>c \<in> set ws. is_space c \<Longrightarrow> trimmed t \<Longrightarrow> strip (ws @ t) = t"
proof (induction ws)
  case Nil
  then show ?case by (simp add: strip_trimmed)
next
  case (Cons a ws)
  have "strip ((a # ws) @ t) = strip (ws @ t)"
    using Cons.prems(1) by (simp add: strip_def)
  then show ?case using Cons by simp
qed

lemma clean_text_serialized:
  assumes "\<forall>g \<in> set cs. is_cue_phrase g" "cue_findall t = []" "trimmed t" "spaced t"
  shows "cue_findall (cue_prefix cs @ t) = cs" "clean_text (cue_prefix cs @ t) = t"
proof -
  have scan: "cue_scan (cue_prefix cs @ t) =
      concat (map (\<lambda>g. [Cue g, Ch CHR '' '']) cs) @ map Ch t"
    using cue_scan_prefix [OF assms(1), of t] cue_scan_no_cue [OF assms(2)] by simp
  have c1: "concat (map token_cue (concat (map (\<lambda>g. [Cue g, Ch CHR '' '']) cs))) = cs"
    by (induction cs) simp_all
  have c2: "concat (map token_char (concat (map (\<lambda>g. [Cue g, Ch CHR '' '']) cs))) =
      replicate (length cs) CHR '' ''"
    by (induction cs) simp_all
  show "cue_findall (cue_prefix cs @ t) = cs"
    unfolding cue_findall_def scan map_append concat_append c1 token_cue_Ch by simp
  have sub: "cue_sub (cue_prefix cs @ t) = replicate (length cs) CHR '' '' @ t"
    unfolding cue_sub_def scan map_append concat_append c2 token_char_Ch ..
  have st: "strip (replicate (length cs) CHR '' '' @ t) = t"
    by (rule strip_leading_spaces) (simp_all add: special_chars assms(3))
  show "clean_text (cue_prefix cs @ t) = t"
    unfolding clean_text_def sub st collapse_ws_def by (rule collapse_ws_spaced_id [OF assms(4)])
qed

lemma append_turn_serialized:
  assumes "\<forall>g \<in> set cs. is_cue_phrase g" "cue_findall t = []" "trimmed t" "spaced t"
    and "length t > MAX_SEGMENT_CHARS \<longrightarrow> split_long_segment t = [t]"
  shows "append_turn segs spk (cue_prefix cs @ t) =
           segs @ [\<lparr>speaker = spk, s_text = t, s_index = int (length segs), cues = cs\<rparr>]"
proof -
  have ne: "t \<noteq> []" using assms(3) by (simp add: trimmed_def)
  show ?thesis
    unfolding append_turn_def Let_def clean_text_serialized [OF assms(1-4)]
    using ne assms(5) by simp
qed

lemma match_host_label_newline: "match_host_label (CHR 0x0A # r) = None"
  by (simp add: match_host_label_def)

lemma label_no_newline:
  "take 6 s = ''HOST_A'' \<or> take 6 s = ''HOST_B'' \<Longrightarrow> CHR 0x0A \<notin> set (take 6 s)"
  by auto

lemma match_host_label_context:
  assumes "match_host_label t = None"
  shows "match_host_label (t @ CHR 0x0A # CHR 0x0A # CHR ''H'' # z) = None"
proof (cases "6 \<le> length t")
  case True
  define u where "u = drop 6 t"
  define x where "x = CHR 0x0A # CHR 0x0A # CHR ''H'' # z"
  have tk: "take 6 (t @ x) = take 6 t" and dr: "drop 6 (t @ x) = u @ x"
    using True by (simp_all add: u_def)
  show ?thesis
  proof (cases "take 6 t = ''HOST_A'' \<or> take 6 t = ''HOST_B''")
    case False
    then show ?thesis
      unfolding x_def [symmetric] match_host_label_def tk by simp
  next
    case label: True
    have hyp: "\<not> (dropWhile is_space u \<noteq> [] \<and> hd (dropWhile is_space u) = CHR '':'')"
      using assms label unfolding match_host_label_def Let_def u_def [symmetric]
      by (auto split: if_splits)
    have "\<not> (dropWhile is_space (u @ x) \<noteq> [] \<and> hd (dropWhile is_space (u @ x)) = CHR '':'')"
    proof (cases "dropWhile is_space u = []")
      case True
      then have "\<forall>c \<in> set u. is_space c"
        using dropWhile_eq_Nil_conv [of is_space u] by blast
      then have "dropWhile is_space (u @ x) = dropWhile is_space x"
        by (simp add: dropWhile_append)
      also have "\<dots> = CHR ''H'' # z"
        by (simp add: x_def is_space_def)
      finally show ?thesis by simp
    next
      case False
      then have "\<not> (\<forall>c \<in> set u. is_space c)"
        using dropWhile_eq_Nil_conv [of is_space u] by blast
      then have e: "dropWhile is_space (u @ x) = dropWhile is_space u @ x"
        by (auto simp: dropWhile_append)
      obtain a r where ar: "dropWhile is_space u = a # r"
        using False by (cases "dropWhile is_space u") auto
      have "a \<noteq> CHR '':''" using hyp unfolding ar by simp
      then show ?thesis unfolding e ar by simp
    qed
    then have nf: "(dropWhile is_space (u @ x) \<noteq> [] \<and>
        hd (dropWhile is_space (u @ x)) = CHR '':'') = False"
      by blast
    have "match_host_label (t @ x) =
        (if take 6 t = ''HOST_A'' \<or> take 6 t = ''HOST_B''
         then (if dropWhile is_space (u @ x) \<noteq> [] \<and>
                  hd (dropWhile is_space (u @ x)) = CHR '':''
               then Some (take 6 t, 6 + length (takeWhile is_space (u @ x)) + 1) else None)
         else None)"
      unfolding match_host_label_def Let_def tk dr by (rule refl)
    also have "\<dots> = None" unfolding nf by (simp only: if_False if_cancel)
    finally show ?thesis unfolding x_def .
  qed
next
  case False
  define x where "x = CHR 0x0A # CHR 0x0A # CHR ''H'' # z"
  have "CHR 0x0A \<in> set (take 6 (t @ x))"
  proof -
    have "take 6 (t @ x) = t @ take (6 - length t) x" using False by simp
    moreover have "take (6 - length t) x = CHR 0x0A # take (6 - length t - 1) (tl x)"
      using False by (cases "6 - length t") (simp_all add: x_def)
    ultimately show ?thesis by simp
  qed
  then have "\<not> (take 6 (t @ x) = ''HOST_A'' \<or> take 6 (t @ x) = ''HOST_B'')"
    using label_no_newline [of "t @ x"] by blast
  then show ?thesis
    unfolding x_def [symmetric] match_host_label_def by simp
qed

lemma marker_scan_label_free:
  assumes "label_free u"
    and "prev = None \<or> prev = Some (CHR 0x0A) \<Longrightarrow> match_host_label u = None"
    and "v = [] \<or> (\<exists>z. v = CHR 0x0A # CHR 0x0A # CHR ''H'' # z)"
  shows "marker_scan match_host_label prev (u @ v) =
           map Inr u @ marker_scan match_host_label (if u = [] then prev else Some (last u)) v"
  using assms(1,2)
proof (induction u arbitrary: prev)
  case Nil
  show ?case by simp
next
  case (Cons c cs)
  have ctx: "match_host_label (c # cs) = None \<Longrightarrow> match_host_label ((c # cs) @ v) = None"
    using assms(3) match_host_label_context [of "c # cs"] by auto
  have none: "(if prev = None \<or> prev = Some (CHR 0x0A)
               then match_host_label ((c # cs) @ v) else None) = None"
    using Cons.prems(2) ctx by simp
  have step: "marker_scan match_host_label prev ((c # cs) @ v) =
      Inr c # marker_scan match_host_label (Some c) (cs @ v)"
    unfolding append_Cons marker_scan.simps none [unfolded append_Cons] by simp
  have ih: "marker_scan match_host_label (Some c) (cs @ v) =
      map Inr cs @ marker_scan match_host_label (if cs = [] then Some c else Some (last cs)) v"
    by (rule Cons.IH) (use Cons.prems(1) in auto)
  show ?case unfolding step ih by simp
qed

lemma marker_scan_blank_line:
  assumes "x \<noteq> CHR 0x0A"
  shows "marker_scan match_host_label (Some x) (CHR 0x0A # CHR 0x0A # r) =
           Inr (CHR 0x0A) # Inr (CHR 0x0A) # marker_scan match_host_label (Some (CHR 0x0A)) r"
proof -
  have c1: "(if Some x = None \<or> Some x = Some (CHR 0x0A)
             then match_host_label (CHR 0x0A # CHR 0x0A # r) else None) = None"
    using assms by simp
  have c2: "(if Some (CHR 0x0A) = None \<or> Some (CHR 0x0A) = Some (CHR 0x0A)
             then match_host_label (CHR 0x0A # r) else None) = None"
    by (simp add: match_host_label_newline)
  show ?thesis
    unfolding marker_scan.simps(2) [of _ _ "CHR 0x0A" "CHR 0x0A # r"] c1
      marker_scan.simps(2) [of _ _ "CHR 0x0A" r] c2 option.case ..
qed

lemma marker_scan_label:
  assumes "prev = None \<or> prev = Some (CHR 0x0A)"
  shows "marker_scan match_host_label prev (speaker_value spk @ '': '' @ r) =
           Inl (speaker_value spk) # marker_scan match_host_label (Some CHR '':'') (CHR '' '' # r)"
proof -
  define cs where "cs = tl (speaker_value spk) @ '': '' @ r"
  have s: "speaker_value spk @ '': '' @ r = CHR ''H'' # cs"
    unfolding cs_def by (cases spk) simp_all
  have m: "(if prev = None \<or> prev = Some (CHR 0x0A) then match_host_label (CHR ''H'' # cs)
            else None) = Some (speaker_value spk, 7)"
    using assms match_host_label_line [of spk r] unfolding s by simp
  have n: "(7::nat) - 1 = 6" by simp
  have l: "last (CHR ''H'' # take 6 cs) = CHR '':''"
    unfolding cs_def by (cases spk) simp_all
  have d: "drop 6 cs = CHR '' '' # r"
    unfolding cs_def by (cases spk) simp_all
  show ?thesis
    unfolding s marker_scan.simps(2) m option.case prod.case n l d ..
qed

lemma join_brackets:
  "cs \<noteq> [] \<Longrightarrow>
   join '' '' (map (\<lambda>c. ''['' @ c @ '']'') cs) \<noteq> [] \<and>
   join '' '' (map (\<lambda>c. ''['' @ c @ '']'') cs) @ '' '' = cue_prefix cs"
proof (induction cs)
  case Nil
  then show ?case by simp
next
  case (Cons c cs)
  show ?case
  proof (cases cs)
    case Nil
    then show ?thesis by (simp add: cue_prefix_def)
  next
    case (Cons d ds)
    then have "join '' '' (map (\<lambda>c. ''['' @ c @ '']'') cs) @ '' '' = cue_prefix cs"
      using Cons.IH by simp
    then show ?thesis using Cons by (simp add: cue_prefix_def)
  qed
qed

lemma segment_line_eq:
  "segment_line seg = speaker_value (speaker seg) @ '': '' @ cue_prefix (cues seg) @ s_text seg"
proof (cases "cues seg = []")
  case True
  then show ?thesis by (simp add: segment_line_def cue_prefix_def)
next
  case False
  show ?thesis
    unfolding segment_line_def Let_def using join_brackets [OF False] by simp
qed

lemma label_free_append: "label_free (a @ b) \<Longrightarrow> label_free b"
  by (induction a) simp_all

lemma strip_both:
  assumes "trimmed t" "\<forall>c \<in> set ws. is_space c" "\<forall>c \<in> set ws'. is_space c"
  shows "strip (ws @ t @ ws') = t"
proof -
  obtain a r where t: "t = a # r" and a: "\<not> is_space a"
    using assms(1) by (cases t) (auto simp: trimmed_def)
  have 1: "dropWhile is_space (ws @ t @ ws') = t @ ws'"
    using assms(2) a unfolding t by (simp add: dropWhile_append)
  obtain b q where rt: "rev t = b # q" and b: "\<not> is_space b"
    using assms(1) by (cases "rev t") (auto simp: trimmed_def last_rev [symmetric] hd_rev)
  have 2: "dropWhile is_space (rev (t @ ws')) = rev t"
    using assms(3) b unfolding rev_append rt by (simp add: dropWhile_append)
  show ?thesis unfolding strip_def 1 2 by simp
qed

lemma body_trimmed:
  assumes "trimmed t"
  shows "trimmed (cue_prefix cs @ t)"
proof (cases cs)
  case Nil
  then show ?thesis using assms by (simp add: cue_prefix_def)
next
  case (Cons c cs')
  have "cue_prefix cs @ t = CHR ''['' # (c @ ''] '' @ cue_prefix cs' @ t)"
    by (simp add: Cons cue_prefix_def)
  moreover have "t \<noteq> []" "\<not> is_space (last t)" using assms by (simp_all add: trimmed_def)
  ultimately show ?thesis by (simp add: trimmed_def special_chars)
qed

lemma body_clean:
  assumes "trimmed t" "cs = [] \<longrightarrow> hd t \<noteq> CHR ''*''"
    and "v = [] \<or> v = [CHR 0x0A, CHR 0x0A]"
  shows "strip (lstrip_star (strip (CHR '' '' # (cue_prefix cs @ t) @ v))) = cue_prefix cs @ t"
proof -
  define b where "b = cue_prefix cs @ t"
  have tr: "trimmed b" unfolding b_def by (rule body_trimmed [OF assms(1)])
  have v: "\<forall>c \<in> set v. is_space c" using assms(3) by (auto simp: special_chars)
  have 1: "strip (CHR '' '' # b @ v) = b"
    using strip_both [OF tr, of "[CHR '' '']" v] v by (simp add: special_chars)
  have "hd b \<noteq> CHR ''*''"
  proof (cases cs)
    case Nil
    then show ?thesis using assms(2) by (simp add: b_def cue_prefix_def)
  next
    case (Cons c cs')
    then show ?thesis by (simp add: b_def cue_prefix_def)
  qed
  then have 2: "lstrip_star b = b"
    using tr by (cases b) (simp_all add: lstrip_star_def trimmed_def)
  show ?thesis unfolding b_def [symmetric] 1 2 by (rule strip_trimmed [OF tr])
qed

declare marker_scan.simps [simp del]

lemma segments_to_script_starts:
  "\<exists>z. segments_to_script (seg # rest) = CHR ''H'' # z"
proof -
  obtain z where "segment_line seg = CHR ''H'' # z"
    unfolding segment_line_eq by (cases "speaker seg") simp_all
  then show ?thesis
    unfolding segments_to_script_def by (cases rest) simp_all
qed

lemma scan_serialized_body:
  assumes "trimmed (s_text seg)" "reparsable seg"
    and "v = [] \<or> (\<exists>z. v = CHR 0x0A # CHR 0x0A # CHR ''H'' # z)"
    and "prev = None \<or> prev = Some (CHR 0x0A)"
  shows "marker_scan match_host_label prev (segment_line seg @ v) =
           Inl (speaker_value (speaker seg)) #
           map Inr (CHR '' '' # snd (turn_of_segment seg)) @
           marker_scan match_host_label (Some (last (s_text seg))) v"
proof -
  define b where "b = cue_prefix (cues seg) @ s_text seg"
  have line: "segment_line seg = speaker_value (speaker seg) @ '': '' @ b"
    unfolding b_def by (rule segment_line_eq)
  have ne: "s_text seg \<noteq> []" using assms(1) by (simp add: trimmed_def)
  have lastb: "last (CHR '' '' # b) = last (s_text seg)"
    using ne by (simp add: b_def)
  have "label_free ((speaker_value (speaker seg) @ '':'') @ CHR '' '' # b)"
    using assms(2) unfolding reparsable_def line by simp
  then have lf: "label_free (CHR '' '' # b)" by (rule label_free_append)
  have 1: "marker_scan match_host_label prev (segment_line seg @ v) =
      Inl (speaker_value (speaker seg)) #
      marker_scan match_host_label (Some CHR '':'') ((CHR '' '' # b) @ v)"
    unfolding line using marker_scan_label [OF assms(4), of "speaker seg" "b @ v"] by simp
  have 2: "marker_scan match_host_label (Some CHR '':'') ((CHR '' '' # b) @ v) =
      map Inr (CHR '' '' # b) @
      marker_scan match_host_label (Some (last (s_text seg))) v"
    using marker_scan_label_free [OF lf _ assms(3), of "Some CHR '':''"] lastb by simp
  show ?thesis
    unfolding 1 2 by (simp add: turn_of_segment_def b_def)
qed

lemma turns_serialized:
  assumes "\<forall>seg \<in> set segs. trimmed (s_text seg) \<and> reparsable seg" "segs \<noteq> []"
    and "prev = None \<or> prev = Some (CHR 0x0A)"
  shows "fst (turns_of (marker_scan match_host_label prev (segments_to_script segs))) = []
       \<and> map (\<lambda>(l, t). (l, strip (lstrip_star (strip t))))
           (snd (turns_of (marker_scan match_host_label prev (segments_to_script segs)))) =
         map turn_of_segment segs"
  using assms
proof (induction segs arbitrary: prev)
  case Nil
  then show ?case by simp
next
  case (Cons seg rest)
  have tr: "trimmed (s_text seg)" and rp: "reparsable seg" using Cons.prems(1) by simp_all
  have star: "cues seg = [] \<longrightarrow> hd (s_text seg) \<noteq> CHR ''*''"
    using rp by (simp add: reparsable_def)
  define b where "b = snd (turn_of_segment seg)"
  have b: "b = cue_prefix (cues seg) @ s_text seg" by (simp add: b_def turn_of_segment_def)
  have turn: "turn_of_segment seg = (speaker_value (speaker seg), b)"
    by (simp add: b_def turn_of_segment_def)
  show ?case
  proof (cases rest)
    case Nil
    have s: "segments_to_script (seg # rest) = segment_line seg @ []"
      by (simp add: Nil segments_to_script_def)
    have "marker_scan match_host_label prev (segment_line seg @ []) =
        Inl (speaker_value (speaker seg)) # map Inr (CHR '' '' # b) @ []"
      using scan_serialized_body [OF tr rp _ Cons.prems(3), of "[]"]
      by (simp add: marker_scan.simps(1) b_def)
    then have scan: "marker_scan match_host_label prev (segments_to_script (seg # rest)) =
        Inl (speaker_value (speaker seg)) # map Inr (CHR '' '' # b) @ []"
      unfolding s .
    have t: "turns_of (Inl (speaker_value (speaker seg)) # map Inr (CHR '' '' # b) @ []) =
        ([], [(speaker_value (speaker seg), CHR '' '' # b)])"
      unfolding turns_of.simps(3) turns_of_chars by simp
    have cl: "strip (lstrip_star (strip (CHR '' '' # b))) = b"
      using body_clean [OF tr star, of "[]"] by (simp add: b)
    show ?thesis unfolding scan t using cl by (simp add: Nil turn)
  next
    case (Cons seg2 rest2)
    define s' where "s' = segments_to_script rest"
    obtain z where z: "s' = CHR ''H'' # z"
      unfolding s'_def Cons using segments_to_script_starts by blast
    have s: "segments_to_script (seg # rest) = segment_line seg @ CHR 0x0A # CHR 0x0A # s'"
      by (simp add: Cons segments_to_script_def s'_def)
    have nl: "last (s_text seg) \<noteq> CHR 0x0A"
      using tr special_chars(13) by (auto simp: trimmed_def)
    have "marker_scan match_host_label prev (segment_line seg @ CHR 0x0A # CHR 0x0A # s') =
        Inl (speaker_value (speaker seg)) #
        map Inr ((CHR '' '' # b) @ [CHR 0x0A, CHR 0x0A]) @
        marker_scan match_host_label (Some (CHR 0x0A)) s'"
      using scan_serialized_body [OF tr rp _ Cons.prems(3), of "CHR 0x0A # CHR 0x0A # s'"]
        z marker_scan_blank_line [OF nl, of s'] by (simp add: b_def)
    then have scan: "marker_scan match_host_label prev (segments_to_script (seg # rest)) =
        Inl (speaker_value (speaker seg)) #
        map Inr ((CHR '' '' # b) @ [CHR 0x0A, CHR 0x0A]) @
        marker_scan match_host_label (Some (CHR 0x0A)) s'"
      unfolding s .
    have ih: "fst (turns_of (marker_scan match_host_label (Some (CHR 0x0A)) s')) = []
       \<and> map (\<lambda>(l, t). (l, strip (lstrip_star (strip t))))
           (snd (turns_of (marker_scan match_host_label (Some (CHR 0x0A)) s'))) =
         map turn_of_segment rest"
      unfolding s'_def
      by (rule Cons.IH) (use Cons.prems(1) Cons in simp_all)
    have t: "turns_of (Inl (speaker_value (speaker seg)) #
        map Inr ((CHR '' '' # b) @ [CHR 0x0A, CHR 0x0A]) @
        marker_scan match_host_label (Some (CHR 0x0A)) s') =
        ([], (speaker_value (speaker seg), (CHR '' '' # b) @ [CHR 0x0A, CHR 0x0A]) #
             snd (turns_of (marker_scan match_host_label (Some (CHR 0x0A)) s')))"
      unfolding turns_of.simps(3) turns_of_chars using ih by simp
    have cl: "strip (lstrip_star (strip ((CHR '' '' # b) @ [CHR 0x0A, CHR 0x0A]))) = b"
      using body_clean [OF tr star, of "[CHR 0x0A, CHR 0x0A]"] by (simp add: b)
    show ?thesis unfolding scan t using cl ih by (simp add: turn)
  qed
qed

lemma split_into_turns_serialized:
  assumes "\<forall>seg \<in> set segs. trimmed (s_text seg) \<and> reparsable seg"
  shows "split_into_turns match_host_label (segments_to_script segs) = map turn_of_segment segs"
proof (cases "segs = []")
  case True
  then show ?thesis
    by (simp add: split_into_turns_def segments_to_script_def marker_scan.simps(1))
next
  case False
  have ne: "\<forall>seg \<in> set segs. snd (turn_of_segment seg) \<noteq> []"
    using assms by (auto simp: turn_of_segment_def trimmed_def)
  have "filter (\<lambda>(speaker, t). t \<noteq> []) (map turn_of_segment segs) = map turn_of_segment segs"
    using ne by (induction segs) (auto simp: case_prod_beta)
  then show ?thesis
    unfolding split_into_turns_def using turns_serialized [OF assms False, of None] by simp
qed

lemma speaker_of_label: "(if speaker_value spk = ''HOST_A'' then HOST_A else HOST_B) = spk"
  by (cases spk) simp_all

lemma segment_eq:
  "\<lparr>speaker = speaker seg, s_text = s_text seg, s_index = s_index seg, cues = cues seg\<rparr> =
     (seg :: SpeakerSegment)"
  by simp

lemma foldl_serialized:
  assumes "\<forall>seg \<in> set todo. normal_segment seg \<and> reparsable seg"
    and "map s_index todo = map (\<lambda>i. int (length done) + int i) [0..<length todo]"
  shows "foldl (\<lambda>segments (speaker_str, t).
                  append_turn segments (if speaker_str = ''HOST_A'' then HOST_A else HOST_B) t)
           done (map turn_of_segment todo) = done @ todo"
  using assms
proof (induction todo arbitrary: "done")
  case Nil
  then show ?case by simp
next
  case (Cons seg rest)
  have n: "normal_segment seg" and r: "reparsable seg" using Cons.prems(1) by simp_all
  have shift: "[0..<length (seg # rest)] = 0 # map Suc [0..<length rest]"
    by (simp add: upt_conv_Cons map_Suc_upt del: upt_Suc)
  have i0: "s_index seg = int (length done)"
    and irest: "map s_index rest = map (\<lambda>i. int (length (done @ [seg])) + int i) [0..<length rest]"
    using Cons.prems(2) unfolding shift by (simp_all add: o_def)
  have "append_turn done (speaker seg) (cue_prefix (cues seg) @ s_text seg) =
      done @ [\<lparr>speaker = speaker seg, s_text = s_text seg, s_index = int (length done),
                cues = cues seg\<rparr>]"
    using n r by (intro append_turn_serialized) (simp_all add: normal_segment_def reparsable_def)
  then have step: "append_turn done (speaker seg) (cue_prefix (cues seg) @ s_text seg) =
      done @ [seg]"
    unfolding i0 [symmetric] segment_eq .
  have "foldl (\<lambda>segments (speaker_str, t).
                  append_turn segments (if speaker_str = ''HOST_A'' then HOST_A else HOST_B) t)
           (done @ [seg]) (map turn_of_segment rest) = (done @ [seg]) @ rest"
    by (rule Cons.IH [OF _ irest]) (use Cons.prems(1) in simp)
  moreover have "turn_of_segment seg =
      (speaker_value (speaker seg), cue_prefix (cues seg) @ s_text seg)"
    by (simp add: turn_of_segment_def)
  ultimately show ?case
    by (simp add: speaker_of_label step)
qed

lemma roundtrip_segments:
  assumes "\<forall>seg \<in> set segs. normal_segment seg \<and> reparsable seg"
    and "map s_index segs = map int [0..<length segs]"
  shows "parse_script (segments_to_script segs) = segs"
proof -
  have t: "\<forall>seg \<in> set segs. trimmed (s_text seg) \<and> reparsable seg"
    using assms(1) by (simp add: normal_segment_def)
  show ?thesis
    unfolding parse_script_def split_into_turns_serialized [OF t]
    using foldl_serialized [OF assms(1), of "[]"] assms(2) by simp
qed

lemma spaced_append_space:
  "spaced a \<Longrightarrow> spaced b \<Longrightarrow> a \<noteq> [] \<Longrightarrow> \<not> is_space (last a) \<Longrightarrow>
   b \<noteq> [] \<Longrightarrow> \<not> is_space (hd b) \<Longrightarrow> spaced (a @ CHR '' '' # b)"
proof (induction a rule: spaced.induct)
  case 1
  then show ?case by simp
next
  case (2 c)
  then show ?case by (cases b) simp_all
next
  case (3 c d cs)
  then show ?case by simp
qed

lemma split_long_loop_append:
  "split_long_loop parts cur (xs @ ys) =
     (case split_long_loop parts cur xs of (p, c) \<Rightarrow> split_long_loop p c ys)"
  by (induction xs arbitrary: parts cur) simp_all

lemma held_sentence:
  assumes "trimmed s" "spaced s" "boundary_free s"
  shows "held s"
proof -
  have "split_sentences s = [s]"
    unfolding split_sentences_def using assms(3) by (simp add: split_sentences_from_whole)
  then show ?thesis using assms by (simp add: held_def)
qed

lemma held_join:
  assumes h: "held cur" and m: "is_mark (last cur)"
    and s: "trimmed s" "spaced s" "boundary_free s"
    and fit: "\<not> length cur + length s > MAX_SEGMENT_CHARS"
  shows "held (cur @ '' '' @ s)"
proof -
  have cur: "cur \<noteq> []" "\<not> is_space (hd cur)" "\<not> is_space (last cur)" "spaced cur"
    using h by (simp_all add: held_def trimmed_def)
  have sne: "s \<noteq> []" "\<not> is_space (hd s)" "\<not> is_space (last s)"
    using s(1) by (simp_all add: trimmed_def)
  have eq: "cur @ '' '' @ s = cur @ CHR '' '' # s" by simp
  have 1: "trimmed (cur @ CHR '' '' # s)"
    using cur sne by (simp add: trimmed_def)
  have 2: "spaced (cur @ CHR '' '' # s)"
    using cur sne s(2) by (simp add: spaced_append_space)
  have "split_sentences_from In_gap s = [s]"
    using s(3) sne by (simp add: split_sentences_from_whole)
  then have 3: "split_sentences (cur @ CHR '' '' # s) = split_sentences cur @ [s]"
    unfolding split_sentences_def
    using split_sentences_from_after_mark [OF cur(1) m, of Plain s] by simp
  have 4: "split_long_loop [] [] (split_sentences cur) = ([], cur)"
    using h by (simp add: held_def)
  have "split_long_loop [] [] (split_sentences cur @ [s]) = ([], cur @ '' '' @ s)"
    unfolding split_long_loop_append 4 using fit cur(1) by simp
  then show ?thesis unfolding eq held_def using 1 2 3 by simp
qed

lemma split_long_loop_held:
  assumes "\<forall>p \<in> set parts. held p"
    and "cur = [] \<or> held cur"
    and "\<forall>q \<in> set rest. trimmed q \<and> spaced q \<and> boundary_free q"
    and "rest \<noteq> [] \<and> cur \<noteq> [] \<longrightarrow> is_mark (last cur)"
    and "\<forall>q \<in> set (butlast rest). is_mark (last q)"
  shows "(\<forall>p \<in> set (fst (split_long_loop parts cur rest)). held p) \<and>
         (snd (split_long_loop parts cur rest) = [] \<or>
          held (snd (split_long_loop parts cur rest)))"
  using assms
proof (induction rest arbitrary: parts cur)
  case Nil
  then show ?case by simp
next
  case (Cons s rest)
  have s: "trimmed s" "spaced s" "boundary_free s" using Cons.prems(3) by simp_all
  have hs: "held s" using s by (rule held_sentence)
  have rest: "\<forall>q \<in> set rest. trimmed q \<and> spaced q \<and> boundary_free q"
    using Cons.prems(3) by simp
  have bl: "\<forall>q \<in> set (butlast rest). is_mark (last q)"
    using Cons.prems(5) by (cases rest) simp_all
  have ms: "rest \<noteq> [] \<longrightarrow> is_mark (last s)"
    using Cons.prems(5) by (cases rest) simp_all
  show ?case
  proof (cases "length cur + length s > MAX_SEGMENT_CHARS \<and> cur \<noteq> []")
    case True
    then have hc: "held cur" using Cons.prems(2) by simp
    then have sc: "strip cur = cur" by (simp add: held_def strip_trimmed)
    have step: "split_long_loop parts cur (s # rest) = split_long_loop (parts @ [cur]) s rest"
      using True sc by simp
    have p: "\<forall>p \<in> set (parts @ [cur]). held p" using Cons.prems(1) hc by simp
    have c: "s = [] \<or> held s" using hs by simp
    have m: "rest \<noteq> [] \<and> s \<noteq> [] \<longrightarrow> is_mark (last s)" using ms by simp
    show ?thesis unfolding step by (rule Cons.IH [OF p c rest m bl])
  next
    case False
    show ?thesis
    proof (cases "cur = []")
      case True
      have step: "split_long_loop parts cur (s # rest) = split_long_loop parts s rest"
        using True by simp
      have c: "s = [] \<or> held s" using hs by simp
      have m: "rest \<noteq> [] \<and> s \<noteq> [] \<longrightarrow> is_mark (last s)" using ms by simp
      show ?thesis unfolding step by (rule Cons.IH [OF Cons.prems(1) c rest m bl])
    next
      case ne: False
      have step: "split_long_loop parts cur (s # rest) =
          split_long_loop parts (cur @ '' '' @ s) rest"
        using False ne by simp
      have hc: "held cur" using Cons.prems(2) ne by simp
      have mc: "is_mark (last cur)" using Cons.prems(4) ne by simp
      have fit: "\<not> length cur + length s > MAX_SEGMENT_CHARS" using False ne by simp
      have c: "cur @ '' '' @ s = [] \<or> held (cur @ '' '' @ s)"
        using held_join [OF hc mc s fit] by simp
      have sne: "s \<noteq> []" using s(1) by (simp add: trimmed_def)
      have m: "rest \<noteq> [] \<and> cur @ '' '' @ s \<noteq> [] \<longrightarrow> is_mark (last (cur @ '' '' @ s))"
        using ms sne by simp
      show ?thesis unfolding step by (rule Cons.IH [OF Cons.prems(1) c rest m bl])
    qed
  qed
qed

lemma split_long_segment_held:
  assumes "trimmed t" "spaced t"
  shows "\<forall>p \<in> set (split_long_segment t). held p"
proof -
  obtain parts cur where pc: "split_long_loop [] [] (split_sentences t) = (parts, cur)"
    by (cases "split_long_loop [] [] (split_sentences t)") auto
  have 1: "\<forall>p \<in> set ([] :: string list). held p" by simp
  have 2: "([] :: string) = [] \<or> held []" by simp
  have 3: "\<forall>q \<in> set (split_sentences t). trimmed q \<and> spaced q \<and> boundary_free q"
    using split_sentences_trimmed(1) [OF assms(1)]
      split_sentences_from_spaced [OF assms(2), of Plain]
    by (simp add: split_sentences_def)
  have 4: "split_sentences t \<noteq> [] \<and> ([] :: string) \<noteq> [] \<longrightarrow> is_mark (last [])" by simp
  note r = split_long_loop_held [OF 1 2 3 4 split_sentences_trimmed(2) [OF assms(1)],
      unfolded pc fst_conv snd_conv]
  show ?thesis
  proof (cases "strip cur = []")
    case True
    then show ?thesis unfolding split_long_segment_def pc using r by simp
  next
    case False
    then have "cur \<noteq> []" by (auto simp: strip_def)
    then have "held cur" using r by simp
    then have "strip cur = cur" by (simp add: held_def strip_trimmed)
    then show ?thesis unfolding split_long_segment_def pc using r \<open>held cur\<close> by simp
  qed
qed

lemma held_one_part: "held p \<Longrightarrow> split_long_segment p = [p]"
  by (simp add: held_def split_long_segment_def strip_trimmed trimmed_def)

lemma append_subs_normal:
  assumes "\<forall>seg \<in> set segments. normal_segment seg"
    and "map s_index segments = map int [0..<length segments]"
    and "\<forall>p \<in> set subs. held p"
    and "\<forall>g \<in> set cs. is_cue_phrase g"
  shows "(\<forall>seg \<in> set (append_subs segments spk cs j subs). normal_segment seg) \<and>
         map s_index (append_subs segments spk cs j subs) =
           map int [0..<length (append_subs segments spk cs j subs)]"
  using assms
proof (induction subs arbitrary: segments j)
  case Nil
  then show ?case by simp
next
  case (Cons sub rest)
  define seg where "seg = \<lparr>speaker = spk, s_text = sub, s_index = int (length segments),
                     cues = (if j = 0 then cs else [])\<rparr>"
  have h: "held sub" using Cons.prems(3) by simp
  have n: "normal_segment seg"
    using h Cons.prems(4) by (simp add: normal_segment_def seg_def held_def held_one_part)
  have 1: "\<forall>s \<in> set (segments @ [seg]). normal_segment s"
    using Cons.prems(1) n by simp
  have 2: "map s_index (segments @ [seg]) = map int [0..<length (segments @ [seg])]"
    using Cons.prems(2) by (simp add: seg_def)
  have 3: "\<forall>p \<in> set rest. held p" using Cons.prems(3) by simp
  have step: "append_subs segments spk cs j (sub # rest) =
      append_subs (segments @ [seg]) spk cs (Suc j) rest"
    by (simp add: seg_def)
  show ?case unfolding step by (rule Cons.IH [OF 1 2 3 Cons.prems(4)])
qed

lemma append_turn_normal:
  assumes "\<forall>seg \<in> set segments. normal_segment seg"
    and "map s_index segments = map int [0..<length segments]"
  shows "(\<forall>seg \<in> set (append_turn segments spk t). normal_segment seg) \<and>
         map s_index (append_turn segments spk t) =
           map int [0..<length (append_turn segments spk t)]"
proof (cases "clean_text t = []")
  case True
  then show ?thesis using assms by (simp add: append_turn_def)
next
  case False
  then have c: "trimmed (clean_text t)" "spaced (clean_text t)"
    using clean_text_normal [of t] by simp_all
  have cs: "\<forall>g \<in> set (cue_findall t). is_cue_phrase g" by (rule cue_findall_phrases)
  show ?thesis
  proof (cases "length (clean_text t) > MAX_SEGMENT_CHARS")
    case True
    have eq: "append_turn segments spk t =
        append_subs segments spk (cue_findall t) 0 (split_long_segment (clean_text t))"
      using False True by (simp add: append_turn_def)
    show ?thesis unfolding eq
      by (rule append_subs_normal [OF assms split_long_segment_held [OF c] cs])
  next
    case short: False
    define seg where "seg = \<lparr>speaker = spk, s_text = clean_text t,
        s_index = int (length segments), cues = cue_findall t\<rparr>"
    have eq: "append_turn segments spk t = segments @ [seg]"
      using False short by (simp add: append_turn_def seg_def)
    have n: "normal_segment seg"
      using c cs short by (simp add: normal_segment_def seg_def)
    show ?thesis unfolding eq using assms n by (simp add: seg_def)
  qed
qed

lemma foldl_append_turn_normal:
  assumes "\<forall>seg \<in> set segments. normal_segment seg"
    and "map s_index segments = map int [0..<length segments]"
  shows "(\<forall>seg \<in> set (foldl (\<lambda>segments (speaker_str, t).
              append_turn segments (if speaker_str = ''HOST_A'' then HOST_A else HOST_B) t)
            segments turns). normal_segment seg) \<and>
         map s_index (foldl (\<lambda>segments (speaker_str, t).
              append_turn segments (if speaker_str = ''HOST_A'' then HOST_A else HOST_B) t)
            segments turns) =
           map int [0..<length (foldl (\<lambda>segments (speaker_str, t).
              append_turn segments (if speaker_str = ''HOST_A'' then HOST_A else HOST_B) t)
            segments turns)]"
  using assms
proof (induction turns arbitrary: segments)
  case Nil
  then show ?case by simp
next
  case (Cons turn turns)
  obtain l t where turn: "turn = (l, t)" by (cases turn) auto
  note a = append_turn_normal [OF Cons.prems,
      of "if l = ''HOST_A'' then HOST_A else HOST_B" t]
  show ?case unfolding turn foldl_Cons prod.case
    by (rule Cons.IH [OF conjunct1 [OF a] conjunct2 [OF a]])
qed

lemma parse_script_normal:
  "(\<forall>seg \<in> set (parse_script script). normal_segment seg) \<and>
   map s_index (parse_script script) = map int [0..<length (parse_script script)]"
  unfolding parse_script_def by (rule foldl_append_turn_normal) simp_all

subsection \<open>The round trip\<close>

text \<open>
  Claim C8, amended. When every segment parsed from a script is reparsable (its text holds
  no cue marker, a segment without cues does not begin with an asterisk, and no line of
  its serialized form but the first begins with a canonical label, optional whitespace
  and a colon), then
  serializing the segments and parsing the result gives the same segments again: the
  same speakers, texts, indices and cue lists.
\<close>

theorem parse_script_roundtrip:
  assumes "\<forall>seg \<in> set (parse_script script). reparsable seg"
  shows "parse_script (segments_to_script (parse_script script)) = parse_script script"
proof -
  have "\<forall>seg \<in> set (parse_script script). normal_segment seg \<and> reparsable seg"
    using assms parse_script_normal [of script] by blast
  then show ?thesis
    using parse_script_normal [of script] by (intro roundtrip_segments) simp_all
qed

theorem parse_script_roundtrip_witness:
  "parse_script greeting_script =
     [\<lparr>speaker = HOST_A, s_text = ''Welcome back. Ready?'', s_index = 0, cues = [''pause'']\<rparr>,
      \<lparr>speaker = HOST_B, s_text = ''Always.'', s_index = 1, cues = [''laughs'']\<rparr>]
   \<and> parse_script (segments_to_script (parse_script greeting_script)) =
       parse_script greeting_script"
proof -
  have p: "parse_script greeting_script =
     [\<lparr>speaker = HOST_A, s_text = ''Welcome back. Ready?'', s_index = 0, cues = [''pause'']\<rparr>,
      \<lparr>speaker = HOST_B, s_text = ''Always.'', s_index = 1, cues = [''laughs'']\<rparr>]"
    by code_simp
  have r: "\<forall>seg \<in> set (parse_script greeting_script). reparsable seg"
    unfolding p by code_simp
  show ?thesis using parse_script_roundtrip [OF r] p by simp
qed

text \<open>
  Claim C8, as stated, fails: removing a cue that stands inside a bracketed phrase leaves
  a new cue marker in the text, and the second parse takes it out of the text and into
  the cue list.
\<close>

theorem nested_cue_not_recovered:
  "parse_script nested_cue_script =
     [\<lparr>speaker = HOST_A, s_text = ''Right [so then] okay'', s_index = 0, cues = [''pause'']\<rparr>]
   \<and> segments_to_script (parse_script nested_cue_script) =
       ''HOST_A: [pause] Right [so then] okay''
   \<and> parse_script (segments_to_script (parse_script nested_cue_script)) =
     [\<lparr>speaker = HOST_A, s_text = ''Right okay'', s_index = 0,
       cues = [''pause'', ''so then'']\<rparr>]"
  by code_simp

section \<open>Long turns\<close>











end
